theory Spec2Isabelle
  imports Complex_Main "HOL-Library.Log_Nat"
begin

section \<open>Commensurate k-point meshes: \<^verbatim>\<open>calculations/kmesh.py\<close>\<close>

text \<open>
  The module holds three computations: \<^verbatim>\<open>find_commensurate_integers\<close> (two axis counts
  are enlarged until the coarse one divides the dense one),
  \<^verbatim>\<open>find_commensurate_meshes\<close> (the same on each of the three axes) and
  \<^verbatim>\<open>kmapper\<close> (positions of the dense k-points that are periodic images of a coarse
  k-point). Python's integers are unbounded, so an axis count is an \<^typ>\<open>int\<close>; \<^verbatim>\<open>//\<close>
  and \<^verbatim>\<open>%\<close> round towards minus infinity, as \<open>div\<close> and \<open>mod\<close> on \<^typ>\<open>int\<close> do.
  An exception is a value of \<open>py_error\<close> on the left of a sum.

  The quotient \<^verbatim>\<open>dense / coarse\<close> and the costs are IEEE doubles in the source. A
  double is represented by the rational number it stands for, and every operation that
  produces one rounds its exact result to the nearest double, a tie going to the even
  significand (\<open>float_round\<close>). The plotting done under \<^verbatim>\<open>debug_plot\<close> does not touch the
  returned value and is left out.
\<close>

datatype py_error = ZeroDivisionError | OverflowError | ValueError | IndexError

type_synonym solution = "int \<times> int"

subsection \<open>Doubles\<close>

text \<open>Rounding to the nearest integer, a tie going to the even one.\<close>

definition rint :: "rat \<Rightarrow> int" where
  "rint x =
     (let f = \<lfloor>x\<rfloor>; d = x - of_int f
      in if d < 1 / 2 then f
         else if 1 / 2 < d then f + 1
         else if even f then f else f + 1)"

text \<open>
  \<open>binary_exponent x\<close> is the integer \<open>e\<close> with \<open>2\<^sup>e \<le> x < 2\<^sup>e\<^sup>+\<^sup>1\<close>, for a positive \<open>x\<close>: the
  difference of the bit lengths of numerator and denominator, or one less.
\<close>

definition pow2 :: "int \<Rightarrow> rat" where
  "pow2 e = 2 powi e"

definition binary_exponent :: "rat \<Rightarrow> int" where
  "binary_exponent x =
     (case quotient_of x of (n, d) \<Rightarrow>
        let k = bitlen n - bitlen d in if pow2 k \<le> x then k else k - 1)"

text \<open>
  The double nearest to \<open>x\<close>, with no bound on the exponent from above: a significand of
  53 bits, so a spacing of \<open>2\<^sup>e\<^sup>-\<^sup>5\<^sup>2\<close> between neighbours, and the spacing \<open>2\<^sup>-\<^sup>1\<^sup>0\<^sup>7\<^sup>4\<close> of the
  subnormal numbers below \<open>2\<^sup>-\<^sup>1\<^sup>0\<^sup>2\<^sup>2\<close>. A result of magnitude \<open>2\<^sup>1\<^sup>0\<^sup>2\<^sup>4\<close> or more is beyond
  the largest double.
\<close>

definition float_round :: "rat \<Rightarrow> rat" where
  "float_round x =
     (if x = 0 then 0
      else let e = max (binary_exponent \<bar>x\<bar>) (- 1022);
               q = pow2 (e - 52)
           in of_int (rint (x / q)) * q)"

definition float_limit :: rat where
  "float_limit = pow2 1024"

text \<open>
  The conversion of a Python integer to a double, as \<^verbatim>\<open>int ** float\<close> does it with its
  left operand: an \<^verbatim>\<open>OverflowError\<close> when the integer is too large.
\<close>

definition float_of_int :: "int \<Rightarrow> py_error + rat" where
  "float_of_int n =
     (let r = float_round (rat_of_int n)
      in if float_limit \<le> \<bar>r\<bar> then Inl OverflowError else Inr r)"

text \<open>
  The sum of two doubles. It raises nothing: beyond the largest double it is an
  infinity, for which \<open>float_limit\<close> and \<open>- float_limit\<close> stand here; they compare with
  the doubles and with each other as the infinities do.
\<close>

definition float_add :: "rat \<Rightarrow> rat \<Rightarrow> rat" where
  "float_add a b =
     (let r = float_round (a + b)
      in if float_limit \<le> r then float_limit
         else if r \<le> - float_limit then - float_limit
         else r)"

subsection \<open>Library functions used by the module\<close>

text \<open>\<^verbatim>\<open>range(a, b)\<close>: the integers from \<open>a\<close> up to, and without, \<open>b\<close>.\<close>

definition py_range :: "int \<Rightarrow> int \<Rightarrow> int list" where
  "py_range a b = [a..b - 1]"

text \<open>
  \<^verbatim>\<open>math.ceil(dense / coarse)\<close>. The true division of two integers raises on a zero
  divisor, gives the double nearest to the exact quotient, and raises when that is beyond
  the largest double; \<^verbatim>\<open>math.ceil\<close> of a double is an integer again.
\<close>

definition ceil_true_div :: "int \<Rightarrow> int \<Rightarrow> py_error + int" where
  "ceil_true_div dense coarse =
     (if coarse = 0 then Inl ZeroDivisionError
      else let k = float_round (rat_of_int dense / rat_of_int coarse)
           in if float_limit \<le> \<bar>k\<bar> then Inl OverflowError else Inr \<lceil>k\<rceil>)"

text \<open>
  \<^verbatim>\<open>np.argmin\<close>: the position of the first occurrence of the least value, found by
  one scan that replaces the best value only by a strictly smaller one; a
  \<^verbatim>\<open>ValueError\<close> on an empty sequence.
\<close>

fun argmin_scan :: "rat list \<Rightarrow> nat \<Rightarrow> rat \<Rightarrow> nat \<Rightarrow> nat" where
  "argmin_scan [] i best bi = bi"
| "argmin_scan (x # xs) i best bi =
     (if x < best then argmin_scan xs (Suc i) x i else argmin_scan xs (Suc i) best bi)"

definition argmin :: "rat list \<Rightarrow> py_error + nat" where
  "argmin xs = (case xs of [] \<Rightarrow> Inl ValueError | x # ys \<Rightarrow> Inr (argmin_scan ys 1 x 0))"

text \<open>\<^verbatim>\<open>xs[idx]\<close> for an index that is not negative.\<close>

definition get_item :: "'a list \<Rightarrow> nat \<Rightarrow> py_error + 'a" where
  "get_item xs idx = (if idx < length xs then Inr (xs ! idx) else Inl IndexError)"

subsection \<open>\<^verbatim>\<open>find_commensurate_integers\<close>\<close>

text \<open>\<^verbatim>\<open>klow = 1\<close>.\<close>

definition klow :: int where
  "klow = 1"

text \<open>
  The cost \<^verbatim>\<open>_[0] ** scaling_dense + _[1] ** scaling_coarse\<close> of a solution. Both
  exponents are the double \<^verbatim>\<open>1.0\<close>, so each power converts its integer to a double and
  returns that double (\<^verbatim>\<open>x ** 1.0\<close> is \<^verbatim>\<open>x\<close>); the two doubles are added.
\<close>

definition cost :: "solution \<Rightarrow> py_error + rat" where
  "cost s =
     (case float_of_int (fst s) of
        Inl e \<Rightarrow> Inl e
      | Inr a \<Rightarrow>
          (case float_of_int (snd s) of
             Inl e \<Rightarrow> Inl e
           | Inr b \<Rightarrow> Inr (float_add a b)))"

text \<open>The list comprehension \<^verbatim>\<open>costs\<close>: the first cost that raises ends it.\<close>

fun costs_of :: "solution list \<Rightarrow> py_error + rat list" where
  "costs_of [] = Inr []"
| "costs_of (s # rest) =
     (case cost s of
        Inl e \<Rightarrow> Inl e
      | Inr c \<Rightarrow> (case costs_of rest of Inl e \<Rightarrow> Inl e | Inr cs \<Rightarrow> Inr (c # cs)))"

text \<open>
  The inner loop \<^verbatim>\<open>for new_coarse in range(coarse, lim)\<close>, with the list of valid
  solutions passed through; \<^verbatim>\<open>new_dense % new_coarse\<close> raises when
  \<^verbatim>\<open>new_coarse\<close> is zero.
\<close>

fun inner_loop :: "int \<Rightarrow> int list \<Rightarrow> solution list \<Rightarrow> py_error + solution list" where
  "inner_loop new_dense [] valid_solutions = Inr valid_solutions"
| "inner_loop new_dense (new_coarse # rest) valid_solutions =
     (if new_coarse = 0 then Inl ZeroDivisionError
      else if new_dense mod new_coarse = 0
        then inner_loop new_dense rest (valid_solutions @ [(new_dense, new_coarse)])
        else inner_loop new_dense rest valid_solutions)"

text \<open>The outer loop \<^verbatim>\<open>for new_dense in range(dense, coarse * khigh)\<close>.\<close>

fun outer_loop ::
  "bool \<Rightarrow> int \<Rightarrow> int list \<Rightarrow> solution list \<Rightarrow> py_error + solution list" where
  "outer_loop include_identical coarse [] valid_solutions = Inr valid_solutions"
| "outer_loop include_identical coarse (new_dense # rest) valid_solutions =
     (let lim = (if include_identical then new_dense div klow + 1 else new_dense div klow)
      in case inner_loop new_dense (py_range coarse lim) valid_solutions of
           Inl e \<Rightarrow> Inl e
         | Inr vs \<Rightarrow> outer_loop include_identical coarse rest vs)"

text \<open>
  The list \<^verbatim>\<open>valid_solutions\<close> as it stands before the costs are computed: the two
  solutions that are always good, then whatever the loops find.
\<close>

definition collect_solutions :: "int \<Rightarrow> int \<Rightarrow> bool \<Rightarrow> int \<Rightarrow> py_error + solution list" where
  "collect_solutions dense coarse include_identical khigh =
     (let new_dense = coarse * khigh;
          valid_solutions = [(new_dense, coarse)];
          valid_solutions =
            (if include_identical then valid_solutions @ [(dense, dense)]
             else valid_solutions)
      in outer_loop include_identical coarse (py_range dense (coarse * khigh))
           valid_solutions)"

text \<open>The end of the function: the costs, the position of the least one, its solution.\<close>

definition select_minimal :: "solution list \<Rightarrow> py_error + solution" where
  "select_minimal valid_solutions =
     (case costs_of valid_solutions of
        Inl e \<Rightarrow> Inl e
      | Inr costs \<Rightarrow>
          (case argmin costs of
             Inl e \<Rightarrow> Inl e
           | Inr idx \<Rightarrow> get_item valid_solutions idx))"

text \<open>
  The part of the body after \<^verbatim>\<open>if dense <= coarse\<close>, reached when
  \<^verbatim>\<open>dense\<close> is the larger number; it makes no recursive call.
\<close>

definition search_larger :: "int \<Rightarrow> int \<Rightarrow> bool \<Rightarrow> py_error + solution" where
  "search_larger dense coarse include_identical =
     (case ceil_true_div dense coarse of
        Inl e \<Rightarrow> Inl e
      | Inr khigh \<Rightarrow>
          (case collect_solutions dense coarse include_identical khigh of
             Inl e \<Rightarrow> Inl e
           | Inr valid_solutions \<Rightarrow> select_minimal valid_solutions))"

function find_commensurate_integers :: "int \<Rightarrow> int \<Rightarrow> bool \<Rightarrow> py_error + solution" where
  "find_commensurate_integers dense coarse include_identical =
     (if dense \<le> coarse then
        (if include_identical then Inr (coarse, coarse)
         else find_commensurate_integers (coarse + 1) coarse False)
      else search_larger dense coarse include_identical)"
  by pat_completeness auto
termination
  by (relation "measure (\<lambda>(dense, coarse, include_identical). if dense \<le> coarse then 1 else 0)")
    auto

declare find_commensurate_integers.simps [simp del]

text \<open>
  The same function with a bound on the number of nested calls: \<open>None\<close> when the
  bound is used up before a call returns.
\<close>

fun find_commensurate_integers_bounded ::
  "nat \<Rightarrow> int \<Rightarrow> int \<Rightarrow> bool \<Rightarrow> (py_error + solution) option" where
  "find_commensurate_integers_bounded 0 dense coarse include_identical = None"
| "find_commensurate_integers_bounded (Suc n) dense coarse include_identical =
     (if dense \<le> coarse then
        (if include_identical then Some (Inr (coarse, coarse))
         else find_commensurate_integers_bounded n (coarse + 1) coarse False)
      else Some (search_larger dense coarse include_identical))"

subsection \<open>\<^verbatim>\<open>find_commensurate_meshes\<close>\<close>

text \<open>
  The meshes come from \<^verbatim>\<open>get_mesh_from_kpoints\<close>, a function of another package, as
  lists of integers; the function reads their positions 0, 1 and 2 and calls
  \<^verbatim>\<open>find_commensurate_integers\<close> with its default \<^verbatim>\<open>include_identical=True\<close>. The
  state of the loop is the pair of lists \<^verbatim>\<open>new_dense\<close>, \<^verbatim>\<open>new_coarse\<close>.
\<close>

fun meshes_loop ::
  "int list \<Rightarrow> int list \<Rightarrow> nat list \<Rightarrow> int list \<times> int list \<Rightarrow> py_error + (int list \<times> int list)"
  where
  "meshes_loop dense coarse [] st = Inr st"
| "meshes_loop dense coarse (i # rest) st =
     (case get_item dense i of
        Inl e \<Rightarrow> Inl e
      | Inr d \<Rightarrow>
          (case get_item coarse i of
             Inl e \<Rightarrow> Inl e
           | Inr c \<Rightarrow>
               (case find_commensurate_integers d c True of
                  Inl e \<Rightarrow> Inl e
                | Inr s \<Rightarrow>
                    meshes_loop dense coarse rest
                      ((fst st)[i := fst s], (snd st)[i := snd s]))))"

definition find_commensurate_meshes ::
  "int list \<Rightarrow> int list \<Rightarrow> py_error + (int list \<times> int list)" where
  "find_commensurate_meshes dense coarse =
     meshes_loop dense coarse [0, 1, 2] ([0, 0, 0], [0, 0, 0])"

subsection \<open>\<^verbatim>\<open>kmapper\<close>\<close>

text \<open>
  \<^verbatim>\<open>get_kpoints()\<close> gives an array with three columns, so a k-point is a triple.
  \<^verbatim>\<open>np.around(q, decimals=5)\<close> scales by \<open>10\<^sup>5\<close>, rounds to the nearest integer with
  a tie going to the even one (\<open>rint\<close>), and scales back. The coordinates are taken as
  exact rationals.
\<close>

type_synonym kpoint = "rat \<times> rat \<times> rat"

definition around5 :: "rat \<Rightarrow> rat" where
  "around5 x = of_int (rint (x * 100000)) / 100000"

definition opt :: "rat list" where
  "opt = [0, 1, -1]"

definition kpoint_sub :: "kpoint \<Rightarrow> kpoint \<Rightarrow> kpoint" where
  "kpoint_sub i j =
     (case i of (i0, i1, i2) \<Rightarrow> case j of (j0, j1, j2) \<Rightarrow> (i0 - j0, i1 - j1, i2 - j2))"

definition kpoint_around :: "kpoint \<Rightarrow> kpoint" where
  "kpoint_around q = (case q of (q0, q1, q2) \<Rightarrow> (around5 q0, around5 q1, around5 q2))"

text \<open>
  The loop over the dense points for one coarse point \<open>i\<close>; the state is the running
  \<^verbatim>\<open>count\<close> and the list \<^verbatim>\<open>k_list\<close>.
\<close>

fun dense_loop :: "kpoint \<Rightarrow> kpoint list \<Rightarrow> int \<times> int list \<Rightarrow> int \<times> int list" where
  "dense_loop i [] st = st"
| "dense_loop i (j # rest) (count, k_list) =
     (let q = kpoint_sub i j;
          q = kpoint_around q;
          k_list' =
            (case q of (q0, q1, q2) \<Rightarrow>
               if q0 \<in> set opt \<and> q1 \<in> set opt \<and> q2 \<in> set opt then k_list @ [count]
               else k_list)
      in dense_loop i rest (count + 1, k_list'))"

fun coarse_loop :: "kpoint list \<Rightarrow> kpoint list \<Rightarrow> int list \<Rightarrow> int list" where
  "coarse_loop [] dense_mesh k_list = k_list"
| "coarse_loop (i # rest) dense_mesh k_list =
     coarse_loop rest dense_mesh (snd (dense_loop i dense_mesh (1, k_list)))"

definition kmapper ::
  "kpoint list \<Rightarrow> kpoint list \<Rightarrow> int \<Rightarrow> int \<Rightarrow> (int \<times> int \<times> int \<times> int) list" where
  "kmapper dense_mesh coarse_mesh start_band end_band =
     (let k_list = coarse_loop coarse_mesh dense_mesh []
      in map (\<lambda>k. (k, k, start_band, end_band)) k_list)"

section \<open>Properties of the rounding\<close>

subsection \<open>Powers of two, nearest integers, binary exponents\<close>

lemma pow2_pos: "0 < pow2 e"
  by (simp add: pow2_def)

lemma pow2_add: "pow2 (a + b) = pow2 a * pow2 b"
  by (simp add: pow2_def power_int_add)

lemma pow2_mono: "a \<le> b \<Longrightarrow> pow2 a \<le> pow2 b"
  by (simp add: pow2_def power_int_increasing)

lemma pow2_strict_mono: "a < b \<Longrightarrow> pow2 a < pow2 b"
  by (simp add: pow2_def power_int_strict_increasing)

lemma pow2_less_cancel: "pow2 a < pow2 b \<Longrightarrow> a < b"
proof (rule ccontr)
  assume lt: "pow2 a < pow2 b" and "\<not> a < b"
  then have "b \<le> a" by simp
  then have "pow2 b \<le> pow2 a" by (rule pow2_mono)
  with lt show False by simp
qed

lemma pow2_nat: "pow2 (int n) = 2 ^ n"
  by (simp add: pow2_def)

lemma pow2_nonneg_int: "0 \<le> e \<Longrightarrow> pow2 e = of_int (2 ^ nat e)"
  by (simp add: pow2_def power_int_def)

lemma rint_cases: "rint x = \<lfloor>x\<rfloor> \<or> rint x = \<lfloor>x\<rfloor> + 1"
  by (simp add: rint_def Let_def)

lemma rint_of_int: "rint (of_int n) = n"
  by (simp add: rint_def)

lemma rint_mono:
  assumes "x \<le> y"
  shows "rint x \<le> rint y"
proof (cases "\<lfloor>x\<rfloor> = \<lfloor>y\<rfloor>")
  case False
  with assms have "\<lfloor>x\<rfloor> < \<lfloor>y\<rfloor>" using floor_mono [of x y] by simp
  moreover have "rint x \<le> \<lfloor>x\<rfloor> + 1" using rint_cases [of x] by auto
  moreover have "\<lfloor>y\<rfloor> \<le> rint y" using rint_cases [of y] by auto
  ultimately show ?thesis by simp
next
  case True
  with assms have "x - of_int \<lfloor>x\<rfloor> \<le> y - of_int \<lfloor>y\<rfloor>" by simp
  with True show ?thesis by (simp add: rint_def Let_def)
qed

lemma binary_exponent_bounds:
  assumes "0 < x"
  shows "pow2 (binary_exponent x) \<le> x" and "x < pow2 (binary_exponent x + 1)"
proof -
  obtain n d where q: "quotient_of x = (n, d)" by (cases "quotient_of x")
  then have x: "x = of_int n / of_int d" by (rule quotient_of_div)
  from q have d: "0 < d" by (rule quotient_of_denom_pos)
  with assms x have n: "0 < n" by (simp add: zero_less_divide_iff)
  let ?k = "bitlen n - bitlen d"
  from bitlen_bounds [OF n] have n1: "2 ^ nat (bitlen n - 1) \<le> n" and n2: "n < 2 ^ nat (bitlen n)"
    by simp_all
  from bitlen_bounds [OF d] have d1: "2 ^ nat (bitlen d - 1) \<le> d" and d2: "d < 2 ^ nat (bitlen d)"
    by simp_all
  have bn: "1 \<le> bitlen n" using n by (simp add: bitlen_alt_def)
  have bd: "1 \<le> bitlen d" using d by (simp add: bitlen_alt_def)
  have rn1: "pow2 (bitlen n - 1) \<le> of_int n"
  proof -
    have "rat_of_int (2 ^ nat (bitlen n - 1)) \<le> of_int n" using n1 by (simp only: of_int_le_iff)
    then show ?thesis using bn by (simp add: pow2_nonneg_int)
  qed
  have rn2: "of_int n < pow2 (bitlen n)"
  proof -
    have "rat_of_int n < of_int (2 ^ nat (bitlen n))" using n2 by (simp only: of_int_less_iff)
    then show ?thesis using bn by (simp add: pow2_nonneg_int)
  qed
  have rd1: "pow2 (bitlen d - 1) \<le> of_int d"
  proof -
    have "rat_of_int (2 ^ nat (bitlen d - 1)) \<le> of_int d" using d1 by (simp only: of_int_le_iff)
    then show ?thesis using bd by (simp add: pow2_nonneg_int)
  qed
  have rd2: "of_int d < pow2 (bitlen d)"
  proof -
    have "rat_of_int d < of_int (2 ^ nat (bitlen d))" using d2 by (simp only: of_int_less_iff)
    then show ?thesis using bd by (simp add: pow2_nonneg_int)
  qed
  have dpos: "0 < rat_of_int d" using d by simp
  have lower: "pow2 (?k - 1) \<le> x"
  proof -
    have "pow2 (?k - 1) * of_int d \<le> pow2 (?k - 1) * pow2 (bitlen d)"
      using rd2 pow2_pos [of "?k - 1"] by (simp add: mult_left_mono)
    also have "\<dots> = pow2 (bitlen n - 1)" by (simp flip: pow2_add)
    also have "\<dots> \<le> of_int n" by (rule rn1)
    finally show ?thesis using dpos by (simp add: x pos_le_divide_eq)
  qed
  have upper: "x < pow2 (?k + 1)"
  proof -
    have "of_int n < pow2 (bitlen n)" by (rule rn2)
    also have "\<dots> = pow2 (?k + 1) * pow2 (bitlen d - 1)" by (simp flip: pow2_add)
    also have "\<dots> \<le> pow2 (?k + 1) * of_int d"
      using rd1 pow2_pos [of "?k + 1"] by (simp add: mult_left_mono)
    finally show ?thesis using dpos by (simp add: x pos_divide_less_eq)
  qed
  have be: "binary_exponent x = (if pow2 ?k \<le> x then ?k else ?k - 1)"
    by (simp add: binary_exponent_def q Let_def)
  show "pow2 (binary_exponent x) \<le> x"
    using lower by (simp add: be)
  show "x < pow2 (binary_exponent x + 1)"
    using upper by (simp add: be)
qed

lemma binary_exponent_unique:
  assumes "0 < x" and "pow2 e \<le> x" and "x < pow2 (e + 1)"
  shows "binary_exponent x = e"
proof -
  have "pow2 (binary_exponent x) < pow2 (e + 1)"
    using binary_exponent_bounds(1) [OF assms(1)] assms(3) by simp
  then have "binary_exponent x < e + 1" by (rule pow2_less_cancel)
  moreover have "pow2 e < pow2 (binary_exponent x + 1)"
    using binary_exponent_bounds(2) [OF assms(1)] assms(2) by simp
  then have "e < binary_exponent x + 1" by (rule pow2_less_cancel)
  ultimately show ?thesis by simp
qed

lemma binary_exponent_mono:
  assumes "0 < x" and "x \<le> y"
  shows "binary_exponent x \<le> binary_exponent y"
proof -
  have y: "0 < y" using assms by simp
  have "pow2 (binary_exponent x) \<le> x" by (rule binary_exponent_bounds(1) [OF assms(1)])
  also have "x \<le> y" by (rule assms(2))
  also have "y < pow2 (binary_exponent y + 1)" by (rule binary_exponent_bounds(2) [OF y])
  finally have "binary_exponent x < binary_exponent y + 1" by (rule pow2_less_cancel)
  then show ?thesis by simp
qed

subsection \<open>Doubles are fixed, and rounding is monotone\<close>

lemma pow2_diff: "pow2 (a - b) = pow2 a / pow2 b"
proof -
  have "pow2 a = pow2 (a - b) * pow2 b" by (simp flip: pow2_add)
  then show ?thesis using pow2_pos [of b] by simp
qed

lemma float_round_unfold:
  assumes "x \<noteq> 0" and "e = max (binary_exponent \<bar>x\<bar>) (- 1022)"
  shows "float_round x = of_int (rint (x / pow2 (e - 52))) * pow2 (e - 52)"
  using assms by (simp add: float_round_def Let_def)

lemma float_round_dyadic:
  assumes "m \<noteq> 0" and "\<bar>m\<bar> < 2 ^ 53" and "- 1074 \<le> j"
  shows "float_round (of_int m * pow2 j) = of_int m * pow2 j"
proof -
  let ?x = "rat_of_int m * pow2 j"
  have x0: "?x \<noteq> 0" using assms(1) pow2_pos [of j] by simp
  have absx: "\<bar>?x\<bar> = of_int \<bar>m\<bar> * pow2 j"
    using pow2_pos [of j] by (simp add: abs_mult)
  have xpos: "0 < \<bar>?x\<bar>" using x0 by simp
  have "rat_of_int \<bar>m\<bar> < of_int (2 ^ 53)" using assms(2) by (simp only: of_int_less_iff)
  then have "rat_of_int \<bar>m\<bar> < pow2 53" by (simp add: pow2_def)
  then have "\<bar>?x\<bar> < pow2 53 * pow2 j"
    unfolding absx using pow2_pos [of j] by (simp add: mult_strict_right_mono)
  then have up: "\<bar>?x\<bar> < pow2 (53 + j)" by (simp add: pow2_add)
  have "pow2 (binary_exponent \<bar>?x\<bar>) \<le> \<bar>?x\<bar>" by (rule binary_exponent_bounds(1) [OF xpos])
  with up have "pow2 (binary_exponent \<bar>?x\<bar>) < pow2 (53 + j)" by simp
  then have b: "binary_exponent \<bar>?x\<bar> < 53 + j" by (rule pow2_less_cancel)
  define e where "e = max (binary_exponent \<bar>?x\<bar>) (- 1022)"
  have e: "e \<le> 52 + j" using b assms(3) by (simp add: e_def)
  define k where "k = j - (e - 52)"
  have k: "0 \<le> k" using e by (simp add: k_def)
  have "?x / pow2 (e - 52) = of_int m * pow2 k"
    by (simp add: k_def pow2_diff [of j "e - 52"])
  also have "\<dots> = of_int (m * 2 ^ nat k)" using k by (simp add: pow2_nonneg_int)
  finally have quot: "?x / pow2 (e - 52) = of_int (m * 2 ^ nat k)" .
  have "float_round ?x = of_int (rint (?x / pow2 (e - 52))) * pow2 (e - 52)"
    using x0 e_def by (rule float_round_unfold)
  also have "\<dots> = of_int (m * 2 ^ nat k) * pow2 (e - 52)"
    by (simp only: quot rint_of_int)
  also have "\<dots> = ?x / pow2 (e - 52) * pow2 (e - 52)" by (simp only: quot)
  also have "\<dots> = ?x" using pow2_pos [of "e - 52"] by simp
  finally show ?thesis .
qed

lemma float_round_int:
  assumes "\<bar>n\<bar> \<le> 2 ^ 53"
  shows "float_round (of_int n) = of_int n"
proof (cases "\<bar>n\<bar> = 2 ^ 53")
  case True
  then consider "n = 2 ^ 53" | "n = - (2 ^ 53)" by linarith
  then show ?thesis
  proof cases
    case 1
    have "float_round (of_int 1 * pow2 53) = of_int 1 * pow2 53"
      by (rule float_round_dyadic) simp_all
    with 1 show ?thesis by (simp add: pow2_def)
  next
    case 2
    have "float_round (of_int (- 1) * pow2 53) = of_int (- 1) * pow2 53"
      by (rule float_round_dyadic) simp_all
    with 2 show ?thesis by (simp add: pow2_def)
  qed
next
  case False
  show ?thesis
  proof (cases "n = 0")
    case True
    then show ?thesis by (simp add: float_round_def)
  next
    case nz: False
    from False assms have "\<bar>n\<bar> < 2 ^ 53" by simp
    with nz have "float_round (of_int n * pow2 0) = of_int n * pow2 0"
      by (intro float_round_dyadic) simp_all
    then show ?thesis by (simp add: pow2_def)
  qed
qed

lemma float_round_nonneg:
  assumes "0 \<le> x"
  shows "0 \<le> float_round x"
proof (cases "x = 0")
  case True
  then show ?thesis by (simp add: float_round_def)
next
  case False
  define e where "e = max (binary_exponent \<bar>x\<bar>) (- 1022)"
  have fr: "float_round x = of_int (rint (x / pow2 (e - 52))) * pow2 (e - 52)"
    using False e_def by (rule float_round_unfold)
  have "0 \<le> x / pow2 (e - 52)" using assms pow2_pos [of "e - 52"] by simp
  then have "rint 0 \<le> rint (x / pow2 (e - 52))" by (rule rint_mono)
  then have "0 \<le> rint (x / pow2 (e - 52))" using rint_of_int [of 0] by simp
  then show ?thesis unfolding fr using pow2_pos [of "e - 52"] by simp
qed

lemma float_round_mono_pos:
  assumes "0 < x" and "x \<le> y"
  shows "float_round x \<le> float_round y"
proof -
  have y: "0 < y" using assms by simp
  define ex where "ex = max (binary_exponent \<bar>x\<bar>) (- 1022)"
  define ey where "ey = max (binary_exponent \<bar>y\<bar>) (- 1022)"
  have frx: "float_round x = of_int (rint (x / pow2 (ex - 52))) * pow2 (ex - 52)"
    using assms(1) ex_def by (intro float_round_unfold) simp_all
  have fry: "float_round y = of_int (rint (y / pow2 (ey - 52))) * pow2 (ey - 52)"
    using y ey_def by (intro float_round_unfold) simp_all
  have absx: "\<bar>x\<bar> = x" and absy: "\<bar>y\<bar> = y" using assms(1) y by simp_all
  have "binary_exponent x \<le> binary_exponent y" using assms by (rule binary_exponent_mono)
  then have le: "ex \<le> ey" by (simp add: ex_def ey_def absx absy)
  show ?thesis
  proof (cases "ex = ey")
    case True
    have "x / pow2 (ey - 52) \<le> y / pow2 (ey - 52)"
      using assms(2) pow2_pos [of "ey - 52"] by (simp add: divide_right_mono)
    then have "rint (x / pow2 (ey - 52)) \<le> rint (y / pow2 (ey - 52))" by (rule rint_mono)
    then have "rat_of_int (rint (x / pow2 (ey - 52))) \<le> of_int (rint (y / pow2 (ey - 52)))"
      by (simp only: of_int_le_iff)
    then show ?thesis unfolding frx fry True
      using pow2_pos [of "ey - 52"] by (simp add: mult_right_mono)
  next
    case False
    with le have lt: "ex < ey" by simp
    have "x < pow2 (binary_exponent x + 1)" by (rule binary_exponent_bounds(2) [OF assms(1)])
    also have "\<dots> \<le> pow2 (ex + 1)" by (rule pow2_mono) (simp add: ex_def absx)
    finally have xup: "x < pow2 (ex + 1)" .
    have "x / pow2 (ex - 52) \<le> pow2 (ex + 1) / pow2 (ex - 52)"
      using xup pow2_pos [of "ex - 52"] by (simp add: divide_right_mono)
    also have "\<dots> = pow2 53" by (simp flip: pow2_diff)
    also have "\<dots> = of_int (2 ^ 53)" by (simp add: pow2_def)
    finally have "rint (x / pow2 (ex - 52)) \<le> rint (of_int (2 ^ 53))" by (rule rint_mono)
    then have "rint (x / pow2 (ex - 52)) \<le> 2 ^ 53" by (simp only: rint_of_int)
    then have "rat_of_int (rint (x / pow2 (ex - 52))) \<le> of_int (2 ^ 53)"
      by (simp only: of_int_le_iff)
    then have "float_round x \<le> of_int (2 ^ 53) * pow2 (ex - 52)"
      unfolding frx using pow2_pos [of "ex - 52"] by (simp only: mult_right_mono less_imp_le)
    also have "of_int (2 ^ 53) * pow2 (ex - 52) = pow2 53 * pow2 (ex - 52)"
      by (simp add: pow2_def)
    also have "\<dots> = pow2 (ex + 1)" by (simp add: add.commute flip: pow2_add)
    also have "\<dots> \<le> pow2 ey" using lt by (intro pow2_mono) simp
    finally have x_le: "float_round x \<le> pow2 ey" .
    have "- 1022 < ey" using lt by (simp add: ex_def)
    then have eyb: "ey = binary_exponent y" by (simp add: ey_def absy)
    have ylow: "pow2 ey \<le> y" unfolding eyb by (rule binary_exponent_bounds(1) [OF y])
    have "of_int (2 ^ 52) = pow2 52" by (simp add: pow2_def)
    also have "\<dots> = pow2 ey / pow2 (ey - 52)" by (simp flip: pow2_diff)
    also have "\<dots> \<le> y / pow2 (ey - 52)"
      using ylow pow2_pos [of "ey - 52"] by (simp add: divide_right_mono)
    finally have "rint (of_int (2 ^ 52)) \<le> rint (y / pow2 (ey - 52))" by (rule rint_mono)
    then have "2 ^ 52 \<le> rint (y / pow2 (ey - 52))" by (simp only: rint_of_int)
    then have "rat_of_int (2 ^ 52) \<le> of_int (rint (y / pow2 (ey - 52)))"
      by (simp only: of_int_le_iff)
    then have "of_int (2 ^ 52) * pow2 (ey - 52) \<le> float_round y"
      unfolding fry using pow2_pos [of "ey - 52"] by (simp only: mult_right_mono less_imp_le)
    moreover have "of_int (2 ^ 52) * pow2 (ey - 52) = pow2 52 * pow2 (ey - 52)"
      by (simp add: pow2_def)
    moreover have "pow2 52 * pow2 (ey - 52) = pow2 ey" by (simp flip: pow2_add)
    ultimately have "pow2 ey \<le> float_round y" by simp
    with x_le show ?thesis by simp
  qed
qed

lemma float_round_mono:
  assumes "0 \<le> x" and "x \<le> y"
  shows "float_round x \<le> float_round y"
proof (cases "x = 0")
  case True
  have "0 \<le> float_round y" using assms by (intro float_round_nonneg) simp
  with True show ?thesis by (simp add: float_round_def)
next
  case False
  with assms(1) have "0 < x" by simp
  then show ?thesis using assms(2) by (rule float_round_mono_pos)
qed

section \<open>Properties of the library functions and of the costs\<close>

lemma float_round_pow2: "- 1074 \<le> j \<Longrightarrow> float_round (pow2 j) = pow2 j"
  using float_round_dyadic [of 1 j] by simp

lemma below_float_limit: "x \<le> pow2 200 \<Longrightarrow> x < float_limit"
proof -
  assume "x \<le> pow2 200"
  also have "pow2 200 < pow2 1024" by (rule pow2_strict_mono) simp
  finally show ?thesis by (simp add: float_limit_def)
qed

lemma float_of_int_exact:
  assumes "\<bar>n\<bar> \<le> 2 ^ 53"
  shows "float_of_int n = Inr (of_int n)"
proof -
  have "rat_of_int \<bar>n\<bar> \<le> of_int (2 ^ 53)" using assms by (simp only: of_int_le_iff)
  also have "rat_of_int (2 ^ 53) = pow2 53" by (simp add: pow2_def)
  also have "pow2 53 \<le> pow2 200" by (rule pow2_mono) simp
  finally have "\<bar>rat_of_int n\<bar> < float_limit" by (simp add: below_float_limit)
  then show ?thesis using float_round_int [OF assms] by (simp add: float_of_int_def)
qed

lemma float_of_int_bounded:
  assumes "0 \<le> n" and "n \<le> 2 ^ 199"
  shows "\<exists>a. float_of_int n = Inr a \<and> 0 \<le> a \<and> a \<le> pow2 199"
proof -
  have n0: "0 \<le> rat_of_int n" using assms(1) by simp
  have "rat_of_int n \<le> of_int (2 ^ 199)" using assms(2) by (simp only: of_int_le_iff)
  then have "rat_of_int n \<le> pow2 199" by (simp add: pow2_def)
  with n0 have "float_round (of_int n) \<le> float_round (pow2 199)" by (rule float_round_mono)
  then have up: "float_round (of_int n) \<le> pow2 199" by (simp add: float_round_pow2)
  have lo: "0 \<le> float_round (rat_of_int n)" using n0 by (rule float_round_nonneg)
  have "pow2 199 \<le> pow2 200" by (rule pow2_mono) simp
  with up have "float_round (rat_of_int n) < float_limit" by (intro below_float_limit) simp
  with lo up show ?thesis by (simp add: float_of_int_def)
qed

lemma float_add_exact:
  assumes "\<bar>m + k\<bar> \<le> 2 ^ 53"
  shows "float_add (of_int m) (of_int k) = of_int (m + k)"
proof -
  have fr: "float_round (rat_of_int (m + k)) = of_int (m + k)"
    using assms by (rule float_round_int)
  have "rat_of_int \<bar>m + k\<bar> \<le> of_int (2 ^ 53)" using assms by (simp only: of_int_le_iff)
  also have "rat_of_int (2 ^ 53) = pow2 53" by (simp add: pow2_def)
  also have "pow2 53 \<le> pow2 200" by (rule pow2_mono) simp
  finally have "\<bar>rat_of_int (m + k)\<bar> < float_limit" by (simp add: below_float_limit)
  then have "rat_of_int (m + k) < float_limit" and "- float_limit < rat_of_int (m + k)"
    by (simp_all add: abs_less_iff)
  with fr show ?thesis by (simp add: float_add_def)
qed

lemma cost_exact:
  assumes "\<bar>a\<bar> \<le> 2 ^ 52" and "\<bar>b\<bar> \<le> 2 ^ 52"
  shows "cost (a, b) = Inr (of_int (a + b))"
proof -
  have a: "\<bar>a\<bar> \<le> 2 ^ 53" and b: "\<bar>b\<bar> \<le> 2 ^ 53" and ab: "\<bar>a + b\<bar> \<le> 2 ^ 53"
    using assms by simp_all
  show ?thesis
    by (simp add: cost_def float_of_int_exact [OF a] float_of_int_exact [OF b]
        float_add_exact [OF ab])
qed

lemma cost_total:
  assumes "0 \<le> fst s" and "fst s \<le> 2 ^ 199" and "0 \<le> snd s" and "snd s \<le> 2 ^ 199"
  shows "\<exists>c. cost s = Inr c"
proof -
  from float_of_int_bounded [OF assms(1,2)] obtain a where "float_of_int (fst s) = Inr a" by blast
  moreover from float_of_int_bounded [OF assms(3,4)] obtain b where
    "float_of_int (snd s) = Inr b" by blast
  ultimately show ?thesis by (simp add: cost_def)
qed

lemma costs_of_total:
  "(\<And>s. s \<in> set vs \<Longrightarrow> \<exists>c. cost s = Inr c) \<Longrightarrow> \<exists>cs. costs_of vs = Inr cs"
proof (induction vs)
  case Nil
  then show ?case by simp
next
  case (Cons v vs)
  from Cons.prems [of v] obtain c where c: "cost v = Inr c" by auto
  have "\<exists>cs. costs_of vs = Inr cs" by (rule Cons.IH) (simp add: Cons.prems)
  then obtain cs where "costs_of vs = Inr cs" ..
  with c show ?case by simp
qed

lemma costs_of_nth:
  "costs_of vs = Inr cs \<Longrightarrow>
     length cs = length vs \<and> (\<forall>i < length vs. cost (vs ! i) = Inr (cs ! i))"
proof (induction vs arbitrary: cs)
  case Nil
  then show ?case by simp
next
  case (Cons v vs)
  from Cons.prems obtain c cs' where c: "cost v = Inr c" and cs': "costs_of vs = Inr cs'"
    and cs: "cs = c # cs'"
    by (auto split: sum.splits)
  from Cons.IH [OF cs'] have len: "length cs' = length vs"
    and nth: "\<forall>i < length vs. cost (vs ! i) = Inr (cs' ! i)" by simp_all
  have "\<forall>i < length (v # vs). cost ((v # vs) ! i) = Inr (cs ! i)"
  proof (intro allI impI)
    fix i assume "i < length (v # vs)"
    then show "cost ((v # vs) ! i) = Inr (cs ! i)"
      using c nth cs by (cases i) simp_all
  qed
  with len cs show ?case by simp
qed

lemma argmin_scan_bound: "bi < i \<Longrightarrow> argmin_scan xs i best bi < i + length xs"
proof (induction xs arbitrary: i best bi)
  case Nil
  then show ?case by simp
next
  case (Cons x xs)
  have a: "argmin_scan xs (Suc i) x i < Suc i + length xs"
    by (rule Cons.IH) simp
  have b: "argmin_scan xs (Suc i) best bi < Suc i + length xs"
    by (rule Cons.IH) (use Cons.prems in simp)
  from a b show ?case by simp
qed

lemma argmin_in_range:
  assumes "xs \<noteq> []"
  shows "\<exists>k. argmin xs = Inr k \<and> k < length xs"
proof (cases xs)
  case Nil
  with assms show ?thesis by simp
next
  case (Cons x ys)
  have "argmin_scan ys 1 x 0 < 1 + length ys"
    by (rule argmin_scan_bound) simp
  with Cons show ?thesis by (simp add: argmin_def)
qed

lemma argmin_range: "argmin xs = Inr k \<Longrightarrow> k < length xs"
  using argmin_in_range [of xs] by (cases xs) (auto simp: argmin_def)

lemma argmin_scan_keep:
  "(\<And>x. x \<in> set xs \<Longrightarrow> best \<le> x) \<Longrightarrow> argmin_scan xs i best bi = bi"
proof (induction xs arbitrary: i)
  case Nil
  then show ?case by simp
next
  case (Cons x xs)
  have "\<not> x < best" using Cons.prems [of x] by simp
  moreover have "argmin_scan xs (Suc i) best bi = bi"
    by (rule Cons.IH) (simp add: Cons.prems)
  ultimately show ?case by simp
qed

lemma argmin_first:
  "(\<And>x. x \<in> set xs \<Longrightarrow> c \<le> x) \<Longrightarrow> argmin (c # xs) = Inr 0"
  by (simp add: argmin_def argmin_scan_keep)

lemma select_minimal_member:
  assumes "select_minimal vs = Inr s"
  shows "s \<in> set vs"
proof -
  from assms obtain cs k where "costs_of vs = Inr cs" "argmin cs = Inr k" "get_item vs k = Inr s"
    by (auto simp: select_minimal_def split: sum.splits)
  then show ?thesis by (auto simp: get_item_def split: if_splits)
qed

lemma select_minimal_total:
  assumes "vs \<noteq> []" and "\<And>s. s \<in> set vs \<Longrightarrow> \<exists>c. cost s = Inr c"
  shows "\<exists>s. select_minimal vs = Inr s"
proof -
  from costs_of_total [of vs] assms(2) obtain cs where cs: "costs_of vs = Inr cs" by blast
  from costs_of_nth [OF cs] have len: "length cs = length vs" by simp
  with assms(1) have "cs \<noteq> []" by auto
  then obtain k where k: "argmin cs = Inr k" "k < length cs"
    using argmin_in_range by blast
  with cs len show ?thesis by (simp add: select_minimal_def get_item_def)
qed

lemma argmin_scan_first_least:
  assumes "bi < length pre" and "i = length pre" and "best = pre ! bi"
    and "\<forall>j < length pre. best \<le> pre ! j" and "\<forall>j < bi. best < pre ! j"
  shows "argmin_scan xs i best bi < length (pre @ xs)
    \<and> (\<forall>j < length (pre @ xs). (pre @ xs) ! argmin_scan xs i best bi \<le> (pre @ xs) ! j)
    \<and> (\<forall>j < argmin_scan xs i best bi. (pre @ xs) ! argmin_scan xs i best bi < (pre @ xs) ! j)"
  using assms
proof (induction xs arbitrary: pre i best bi)
  case Nil
  then show ?case by simp
next
  case (Cons x xs)
  let ?pre = "pre @ [x]"
  have app: "?pre @ xs = pre @ x # xs" by simp
  show ?case
  proof (cases "x < best")
    case True
    have "i < length ?pre" using Cons.prems(2) by simp
    moreover have "Suc i = length ?pre" using Cons.prems(2) by simp
    moreover have "x = ?pre ! i" using Cons.prems(2) by simp
    moreover have "\<forall>j < length ?pre. x \<le> ?pre ! j"
    proof (intro allI impI)
      fix j assume "j < length ?pre"
      then consider "j < length pre" | "j = length pre" by fastforce
      then show "x \<le> ?pre ! j"
      proof cases
        case 1
        with Cons.prems(4) True show ?thesis by (simp add: nth_append) (meson less_le_trans less_imp_le)
      next
        case 2
        then show ?thesis by simp
      qed
    qed
    moreover have "\<forall>j < i. x < ?pre ! j"
    proof (intro allI impI)
      fix j assume "j < i"
      with Cons.prems(2) have j: "j < length pre" by simp
      with Cons.prems(4) have "best \<le> pre ! j" by simp
      with True j show "x < ?pre ! j" by (simp add: nth_append)
    qed
    ultimately have "argmin_scan xs (Suc i) x i < length (?pre @ xs)
      \<and> (\<forall>j < length (?pre @ xs). (?pre @ xs) ! argmin_scan xs (Suc i) x i \<le> (?pre @ xs) ! j)
      \<and> (\<forall>j < argmin_scan xs (Suc i) x i. (?pre @ xs) ! argmin_scan xs (Suc i) x i < (?pre @ xs) ! j)"
      by (rule Cons.IH)
    with True show ?thesis unfolding app by simp
  next
    case False
    have "bi < length ?pre" using Cons.prems(1) by simp
    moreover have "Suc i = length ?pre" using Cons.prems(2) by simp
    moreover have "best = ?pre ! bi" using Cons.prems(1,3) by (simp add: nth_append)
    moreover have "\<forall>j < length ?pre. best \<le> ?pre ! j"
    proof (intro allI impI)
      fix j assume "j < length ?pre"
      then consider "j < length pre" | "j = length pre" by fastforce
      then show "best \<le> ?pre ! j"
      proof cases
        case 1
        with Cons.prems(4) show ?thesis by (simp add: nth_append)
      next
        case 2
        with False show ?thesis by simp
      qed
    qed
    moreover have "\<forall>j < bi. best < ?pre ! j"
      using Cons.prems(1,5) by (simp add: nth_append)
    ultimately have "argmin_scan xs (Suc i) best bi < length (?pre @ xs)
      \<and> (\<forall>j < length (?pre @ xs). (?pre @ xs) ! argmin_scan xs (Suc i) best bi \<le> (?pre @ xs) ! j)
      \<and> (\<forall>j < argmin_scan xs (Suc i) best bi. (?pre @ xs) ! argmin_scan xs (Suc i) best bi < (?pre @ xs) ! j)"
      by (rule Cons.IH)
    with False show ?thesis unfolding app by simp
  qed
qed

lemma argmin_first_least:
  assumes "argmin xs = Inr k"
  shows "k < length xs \<and> (\<forall>j < length xs. xs ! k \<le> xs ! j) \<and> (\<forall>j < k. xs ! k < xs ! j)"
proof (cases xs)
  case Nil
  with assms show ?thesis by (simp add: argmin_def)
next
  case (Cons x ys)
  with assms have k: "k = argmin_scan ys 1 x 0" by (simp add: argmin_def)
  have "argmin_scan ys 1 x 0 < length ([x] @ ys)
    \<and> (\<forall>j < length ([x] @ ys). ([x] @ ys) ! argmin_scan ys 1 x 0 \<le> ([x] @ ys) ! j)
    \<and> (\<forall>j < argmin_scan ys 1 x 0. ([x] @ ys) ! argmin_scan ys 1 x 0 < ([x] @ ys) ! j)"
    by (rule argmin_scan_first_least) simp_all
  with k Cons show ?thesis by simp
qed

lemma select_minimal_least:
  assumes "select_minimal vs = Inr s"
  shows "\<exists>cs k. costs_of vs = Inr cs \<and> k < length vs \<and> s = vs ! k
           \<and> (\<forall>j < length vs. cs ! k \<le> cs ! j) \<and> (\<forall>j < k. cs ! k < cs ! j)"
proof -
  from assms obtain cs k where cs: "costs_of vs = Inr cs" and k: "argmin cs = Inr k"
    and g: "get_item vs k = Inr s"
    by (auto simp: select_minimal_def split: sum.splits)
  from g have kl: "k < length vs" and s: "s = vs ! k"
    by (auto simp: get_item_def split: if_splits)
  from costs_of_nth [OF cs] have len: "length cs = length vs" by simp
  from argmin_first_least [OF k] len
  have "(\<forall>j < length vs. cs ! k \<le> cs ! j) \<and> (\<forall>j < k. cs ! k < cs ! j)" by simp
  with cs kl s show ?thesis by blast
qed

section \<open>Properties of the search\<close>

subsection \<open>The loops and the branches\<close>

lemma inner_loop_total:
  "0 \<notin> set ncs \<Longrightarrow> \<exists>vs'. inner_loop nd ncs vs = Inr vs'"
  by (induction ncs arbitrary: vs) auto

lemma inner_loop_appends:
  "inner_loop nd ncs vs = Inr vs' \<Longrightarrow>
     \<exists>ws. vs' = vs @ ws \<and>
       (\<forall>s \<in> set ws. fst s = nd \<and> snd s \<in> set ncs \<and> nd mod snd s = 0)"
proof (induction ncs arbitrary: vs)
  case Nil
  then show ?case by simp
next
  case (Cons nc ncs)
  show ?case
  proof (cases "nd mod nc = 0")
    case True
    with Cons.prems have "inner_loop nd ncs (vs @ [(nd, nc)]) = Inr vs'"
      by (simp split: if_splits)
    from Cons.IH [OF this] obtain ws where
      ws: "vs' = (vs @ [(nd, nc)]) @ ws"
        "\<forall>s \<in> set ws. fst s = nd \<and> snd s \<in> set ncs \<and> nd mod snd s = 0"
      by blast
    have "vs' = vs @ ((nd, nc) # ws)" using ws(1) by simp
    moreover have "\<forall>s \<in> set ((nd, nc) # ws).
        fst s = nd \<and> snd s \<in> set (nc # ncs) \<and> nd mod snd s = 0"
      using ws(2) True by simp
    ultimately show ?thesis by blast
  next
    case False
    with Cons.prems have "inner_loop nd ncs vs = Inr vs'"
      by (simp split: if_splits)
    from Cons.IH [OF this] obtain ws where
      ws: "vs' = vs @ ws"
        "\<forall>s \<in> set ws. fst s = nd \<and> snd s \<in> set ncs \<and> nd mod snd s = 0"
      by blast
    have "\<forall>s \<in> set ws. fst s = nd \<and> snd s \<in> set (nc # ncs) \<and> nd mod snd s = 0"
      using ws(2) by simp
    with ws(1) show ?thesis by blast
  qed
qed

lemma py_range_set: "set (py_range a b) = {k. a \<le> k \<and> k < b}"
  by (auto simp: py_range_def)

lemma outer_loop_total:
  "0 < coarse \<Longrightarrow> \<exists>vs'. outer_loop ii coarse nds vs = Inr vs'"
proof (induction nds arbitrary: vs)
  case Nil
  then show ?case by simp
next
  case (Cons nd nds)
  let ?lim = "if ii then nd div klow + 1 else nd div klow"
  from Cons.prems have "0 \<notin> set (py_range coarse ?lim)"
    by (simp add: py_range_set)
  then obtain ws where "inner_loop nd (py_range coarse ?lim) vs = Inr ws"
    using inner_loop_total by blast
  with Cons.IH [OF Cons.prems, of ws] show ?case
    by (simp add: Let_def)
qed

lemma outer_loop_appends:
  "outer_loop ii coarse nds vs = Inr vs' \<Longrightarrow>
     \<exists>ws. vs' = vs @ ws \<and>
       (\<forall>s \<in> set ws. fst s \<in> set nds \<and> coarse \<le> snd s \<and> snd s \<le> fst s
          \<and> fst s mod snd s = 0)"
proof (induction nds arbitrary: vs)
  case Nil
  then show ?case by simp
next
  case (Cons nd nds)
  let ?lim = "if ii then nd div klow + 1 else nd div klow"
  from Cons.prems obtain us where
    us: "inner_loop nd (py_range coarse ?lim) vs = Inr us"
    and rest: "outer_loop ii coarse nds us = Inr vs'"
    by (auto simp: Let_def split: sum.splits)
  from inner_loop_appends [OF us] obtain ws1 where
    ws1: "us = vs @ ws1"
      "\<forall>s \<in> set ws1. fst s = nd \<and> snd s \<in> set (py_range coarse ?lim) \<and> nd mod snd s = 0"
    by blast
  from Cons.IH [OF rest] obtain ws2 where
    ws2: "vs' = us @ ws2"
      "\<forall>s \<in> set ws2. fst s \<in> set nds \<and> coarse \<le> snd s \<and> snd s \<le> fst s
          \<and> fst s mod snd s = 0"
    by blast
  have "vs' = vs @ (ws1 @ ws2)" using ws1(1) ws2(1) by simp
  moreover have "\<forall>s \<in> set (ws1 @ ws2).
      fst s \<in> set (nd # nds) \<and> coarse \<le> snd s \<and> snd s \<le> fst s \<and> fst s mod snd s = 0"
  proof
    fix s assume "s \<in> set (ws1 @ ws2)"
    then consider "s \<in> set ws1" | "s \<in> set ws2" by auto
    then show "fst s \<in> set (nd # nds) \<and> coarse \<le> snd s \<and> snd s \<le> fst s
        \<and> fst s mod snd s = 0"
    proof cases
      case 1
      with ws1(2) have "fst s = nd" "snd s \<in> set (py_range coarse ?lim)" "nd mod snd s = 0"
        by blast+
      then show ?thesis by (simp add: py_range_set klow_def split: if_splits)
    next
      case 2
      with ws2(2) show ?thesis by simp
    qed
  qed
  ultimately show ?case by blast
qed

lemma fci_larger:
  "\<not> dense \<le> coarse \<Longrightarrow>
     find_commensurate_integers dense coarse ii = search_larger dense coarse ii"
  by (subst find_commensurate_integers.simps) simp

lemma fci_identical:
  "dense \<le> coarse \<Longrightarrow> find_commensurate_integers dense coarse True = Inr (coarse, coarse)"
  by (subst find_commensurate_integers.simps) simp

lemma fci_recurse:
  "dense \<le> coarse \<Longrightarrow>
     find_commensurate_integers dense coarse False =
     find_commensurate_integers (coarse + 1) coarse False"
  by (subst find_commensurate_integers.simps) simp

lemma fci_not_identical:
  "dense \<le> coarse \<Longrightarrow>
     find_commensurate_integers dense coarse False = search_larger (coarse + 1) coarse False"
  by (simp add: fci_recurse fci_larger)

lemma meshes_of_solutions:
  assumes "find_commensurate_integers d0 c0 True = Inr s0"
    and "find_commensurate_integers d1 c1 True = Inr s1"
    and "find_commensurate_integers d2 c2 True = Inr s2"
  shows "find_commensurate_meshes [d0, d1, d2] [c0, c1, c2] =
           Inr ([fst s0, fst s1, fst s2], [snd s0, snd s1, snd s2])"
  using assms
  by (simp add: find_commensurate_meshes_def get_item_def numeral_2_eq_2)

subsection \<open>The candidates, the solution returned and the errors raised\<close>

lemma search_larger_zero: "search_larger dense 0 ii = Inl ZeroDivisionError"
  by (simp add: search_larger_def ceil_true_div_def)

lemma collect_solutions_unfold:
  "collect_solutions dense coarse ii khigh =
     outer_loop ii coarse (py_range dense (coarse * khigh))
       (if ii then [(coarse * khigh, coarse), (dense, dense)] else [(coarse * khigh, coarse)])"
  by (simp add: collect_solutions_def)

lemma collect_solutions_members:
  assumes "collect_solutions dense coarse ii khigh = Inr vs" and "s \<in> set vs"
  shows "s = (coarse * khigh, coarse) \<or> ii \<and> s = (dense, dense)
    \<or> dense \<le> fst s \<and> fst s < coarse * khigh \<and> coarse \<le> snd s \<and> snd s \<le> fst s
      \<and> fst s mod snd s = 0"
proof -
  let ?init = "if ii then [(coarse * khigh, coarse), (dense, dense)] else [(coarse * khigh, coarse)]"
  from assms(1) have "outer_loop ii coarse (py_range dense (coarse * khigh)) ?init = Inr vs"
    by (simp only: collect_solutions_unfold)
  from outer_loop_appends [OF this] obtain ws where
    ws: "vs = ?init @ ws"
      "\<forall>s \<in> set ws. fst s \<in> set (py_range dense (coarse * khigh)) \<and> coarse \<le> snd s
          \<and> snd s \<le> fst s \<and> fst s mod snd s = 0"
    by blast
  from assms(2) ws(1) consider "s \<in> set ?init" | "s \<in> set ws" by auto
  then show ?thesis
  proof cases
    case 1
    then show ?thesis by (auto split: if_splits)
  next
    case 2
    with ws(2) have "fst s \<in> set (py_range dense (coarse * khigh))" "coarse \<le> snd s"
      "snd s \<le> fst s" "fst s mod snd s = 0" by blast+
    then show ?thesis by (simp add: py_range_set)
  qed
qed

lemma collect_solutions_total:
  assumes "0 < coarse"
  shows "\<exists>vs. collect_solutions dense coarse ii khigh = Inr vs \<and> vs \<noteq> []
           \<and> vs ! 0 = (coarse * khigh, coarse)"
proof -
  let ?init = "if ii then [(coarse * khigh, coarse), (dense, dense)] else [(coarse * khigh, coarse)]"
  obtain vs where vs: "outer_loop ii coarse (py_range dense (coarse * khigh)) ?init = Inr vs"
    using outer_loop_total [OF assms] by blast
  from outer_loop_appends [OF vs] obtain ws where "vs = ?init @ ws" by blast
  then have "vs \<noteq> []" and "vs ! 0 = (coarse * khigh, coarse)" by (simp_all split: if_splits)
  with vs show ?thesis by (simp add: collect_solutions_unfold)
qed

lemma search_larger_result:
  assumes "search_larger dense coarse ii = Inr s"
  shows "\<exists>khigh. ceil_true_div dense coarse = Inr khigh \<and>
           (s = (coarse * khigh, coarse) \<or> ii \<and> s = (dense, dense)
            \<or> dense \<le> fst s \<and> fst s < coarse * khigh \<and> coarse \<le> snd s \<and> snd s \<le> fst s
              \<and> fst s mod snd s = 0)"
proof -
  from assms obtain khigh vs where kh: "ceil_true_div dense coarse = Inr khigh"
    and vs: "collect_solutions dense coarse ii khigh = Inr vs"
    and sel: "select_minimal vs = Inr s"
    by (auto simp: search_larger_def split: sum.splits)
  from sel have "s \<in> set vs" by (rule select_minimal_member)
  with vs have "s = (coarse * khigh, coarse) \<or> ii \<and> s = (dense, dense)
    \<or> dense \<le> fst s \<and> fst s < coarse * khigh \<and> coarse \<le> snd s \<and> snd s \<le> fst s
      \<and> fst s mod snd s = 0"
    by (rule collect_solutions_members)
  with kh have "ceil_true_div dense coarse = Inr khigh \<and>
           (s = (coarse * khigh, coarse) \<or> ii \<and> s = (dense, dense)
            \<or> dense \<le> fst s \<and> fst s < coarse * khigh \<and> coarse \<le> snd s \<and> snd s \<le> fst s
              \<and> fst s mod snd s = 0)" by (rule conjI)
  then show ?thesis by (rule exI)
qed

lemma search_larger_divides:
  assumes "1 \<le> coarse" and "1 \<le> dense" and "search_larger dense coarse ii = Inr s"
  shows "1 \<le> snd s \<and> fst s mod snd s = 0"
proof -
  from search_larger_result [OF assms(3)] obtain khigh where
    "ceil_true_div dense coarse = Inr khigh \<and>
     (s = (coarse * khigh, coarse) \<or> ii \<and> s = (dense, dense)
      \<or> dense \<le> fst s \<and> fst s < coarse * khigh \<and> coarse \<le> snd s \<and> snd s \<le> fst s
        \<and> fst s mod snd s = 0)" ..
  then have "s = (coarse * khigh, coarse) \<or> ii \<and> s = (dense, dense)
      \<or> dense \<le> fst s \<and> fst s < coarse * khigh \<and> coarse \<le> snd s \<and> snd s \<le> fst s
        \<and> fst s mod snd s = 0" ..
  then show ?thesis
  proof (elim disjE conjE)
    assume "s = (coarse * khigh, coarse)"
    with assms(1) show ?thesis by simp
  next
    assume "s = (dense, dense)"
    with assms(2) show ?thesis by simp
  next
    assume "coarse \<le> snd s" "fst s mod snd s = 0"
    with assms(1) show ?thesis by simp
  qed
qed

lemma float_of_int_error: "float_of_int n = Inl e \<Longrightarrow> e = OverflowError"
  by (simp add: float_of_int_def Let_def split: if_splits)

lemma cost_error: "cost s = Inl e \<Longrightarrow> e = OverflowError"
  by (auto simp: cost_def split: sum.splits dest: float_of_int_error)

lemma costs_of_error: "costs_of vs = Inl e \<Longrightarrow> e = OverflowError"
  by (induction vs) (auto split: sum.splits dest: cost_error)

lemma select_minimal_error:
  assumes "vs \<noteq> []" and "select_minimal vs = Inl e"
  shows "e = OverflowError"
proof (cases "costs_of vs")
  case (Inl e')
  with assms(2) have "e' = e" by (simp add: select_minimal_def)
  with Inl show ?thesis by (simp add: costs_of_error)
next
  case (Inr cs)
  from costs_of_nth [OF Inr] have len: "length cs = length vs" by simp
  with assms(1) have "cs \<noteq> []" by auto
  then obtain k where "argmin cs = Inr k" "k < length cs" using argmin_in_range by blast
  with Inr len assms(2) show ?thesis by (simp add: select_minimal_def get_item_def)
qed

lemma ceil_true_div_error:
  "coarse \<noteq> 0 \<Longrightarrow> ceil_true_div dense coarse = Inl e \<Longrightarrow> e = OverflowError"
  by (simp add: ceil_true_div_def Let_def split: if_splits)

lemma search_larger_error:
  assumes "0 < coarse" and "search_larger dense coarse ii = Inl e"
  shows "e = OverflowError"
proof (cases "ceil_true_div dense coarse")
  case (Inl e')
  with assms(2) have "e' = e" by (simp add: search_larger_def)
  with Inl assms(1) show ?thesis using ceil_true_div_error [of coarse dense e] by simp
next
  case (Inr khigh)
  from collect_solutions_total [OF assms(1), of dense ii khigh] obtain vs where
    vs: "collect_solutions dense coarse ii khigh = Inr vs" "vs \<noteq> []" by blast
  with Inr assms(2) have "select_minimal vs = Inl e" by (simp add: search_larger_def)
  with vs(2) show ?thesis by (rule select_minimal_error)
qed

subsection \<open>Axis counts up to \<open>2\<^sup>6\<^sup>4\<close>: the search returns\<close>

lemma ceil_true_div_bounded:
  assumes "0 < coarse" and "0 \<le> dense" and "dense \<le> 2 ^ 99"
  shows "\<exists>khigh. ceil_true_div dense coarse = Inr khigh \<and> 0 \<le> khigh \<and> khigh \<le> 2 ^ 99"
proof -
  let ?x = "rat_of_int dense / rat_of_int coarse"
  have c1: "1 \<le> rat_of_int coarse" using assms(1) by simp
  have d0: "0 \<le> rat_of_int dense" using assms(2) by simp
  have x0: "0 \<le> ?x" using assms(1) d0 by simp
  have "?x \<le> rat_of_int dense / 1" using c1 d0 by (intro divide_left_mono) simp_all
  also have "rat_of_int dense \<le> of_int (2 ^ 99)" using assms(3) by (simp only: of_int_le_iff)
  finally have "?x \<le> pow2 99" by (simp add: pow2_def)
  with x0 have "float_round ?x \<le> float_round (pow2 99)" by (rule float_round_mono)
  then have up: "float_round ?x \<le> pow2 99" by (simp add: float_round_pow2)
  have lo: "0 \<le> float_round ?x" using x0 by (rule float_round_nonneg)
  have "pow2 99 \<le> pow2 200" by (rule pow2_mono) simp
  with up have "float_round ?x < float_limit" by (intro below_float_limit) simp
  with lo have lim: "\<not> float_limit \<le> \<bar>float_round ?x\<bar>" by simp
  have "float_round ?x \<le> of_int (2 ^ 99)" using up by (simp add: pow2_def)
  then have k_up: "\<lceil>float_round ?x\<rceil> \<le> 2 ^ 99" by (rule ceiling_le)
  have k_lo: "0 \<le> \<lceil>float_round ?x\<rceil>" using lo by (simp add: zero_le_ceiling)
  have "ceil_true_div dense coarse = Inr \<lceil>float_round ?x\<rceil>"
    using assms(1) lim by (simp add: ceil_true_div_def Let_def)
  with k_lo k_up show ?thesis by blast
qed

lemma search_larger_total:
  assumes "0 < coarse" and "coarse \<le> dense" and "dense \<le> 2 ^ 99"
  shows "\<exists>s. search_larger dense coarse ii = Inr s"
proof -
  have d0: "0 \<le> dense" using assms(1,2) by simp
  from ceil_true_div_bounded [OF assms(1) d0 assms(3)] obtain khigh where
    kh: "ceil_true_div dense coarse = Inr khigh" and k0: "0 \<le> khigh" and k1: "khigh \<le> 2 ^ 99"
    by blast
  from collect_solutions_total [OF assms(1), of dense ii khigh] obtain vs where
    vs: "collect_solutions dense coarse ii khigh = Inr vs" and ne: "vs \<noteq> []" by blast
  have c_up: "coarse \<le> 2 ^ 99" using assms(2,3) by simp
  have "coarse * khigh \<le> 2 ^ 99 * 2 ^ 99"
    using c_up k1 k0 by (intro mult_mono) simp_all
  then have prod_up: "coarse * khigh \<le> 2 ^ 198" by simp
  have prod_lo: "0 \<le> coarse * khigh" using assms(1) k0 by simp
  have costs: "\<exists>c. cost s = Inr c" if "s \<in> set vs" for s
  proof -
    from collect_solutions_members [OF vs that]
    have "0 \<le> fst s \<and> fst s \<le> 2 ^ 199 \<and> 0 \<le> snd s \<and> snd s \<le> 2 ^ 199"
    proof (elim disjE conjE)
      assume "s = (coarse * khigh, coarse)"
      with prod_up prod_lo c_up assms(1) show ?thesis by simp
    next
      assume "s = (dense, dense)"
      with d0 assms(3) show ?thesis by simp
    next
      assume "dense \<le> fst s" "fst s < coarse * khigh" "coarse \<le> snd s" "snd s \<le> fst s"
      with prod_up d0 assms(1) show ?thesis by simp
    qed
    then show ?thesis by (intro cost_total) simp_all
  qed
  from select_minimal_total [OF ne costs] obtain s where "select_minimal vs = Inr s" by blast
  with kh vs have "search_larger dense coarse ii = Inr s" by (simp add: search_larger_def)
  then show ?thesis by (rule exI)
qed

lemma fci_total:
  assumes "1 \<le> dense" and "1 \<le> coarse" and "dense \<le> 2 ^ 64" and "coarse \<le> 2 ^ 64"
  shows "\<exists>s. find_commensurate_integers dense coarse ii = Inr s"
proof (cases "dense \<le> coarse")
  case False
  then have "find_commensurate_integers dense coarse ii = search_larger dense coarse ii"
    by (rule fci_larger)
  moreover have "\<exists>s. search_larger dense coarse ii = Inr s"
    using assms False by (intro search_larger_total) simp_all
  ultimately show ?thesis by simp
next
  case True
  show ?thesis
  proof (cases ii)
    case True
    with \<open>dense \<le> coarse\<close> show ?thesis by (simp add: fci_identical)
  next
    case False
    with True have "find_commensurate_integers dense coarse ii =
        search_larger (coarse + 1) coarse False" by (simp add: fci_not_identical)
    moreover have "\<exists>s. search_larger (coarse + 1) coarse False = Inr s"
      using assms by (intro search_larger_total) simp_all
    ultimately show ?thesis by simp
  qed
qed

lemma fci_cases:
  "find_commensurate_integers dense coarse ii =
     (if dense \<le> coarse
      then (if ii then Inr (coarse, coarse) else search_larger (coarse + 1) coarse False)
      else search_larger dense coarse ii)"
  by (simp add: fci_identical fci_not_identical fci_larger)

lemma fci_divides:
  assumes "1 \<le> dense" and "1 \<le> coarse"
    and "find_commensurate_integers dense coarse ii = Inr s"
  shows "1 \<le> snd s \<and> fst s mod snd s = 0"
proof -
  consider "dense \<le> coarse" "ii" | "dense \<le> coarse" "\<not> ii" | "\<not> dense \<le> coarse" by blast
  then show ?thesis
  proof cases
    case 1
    with assms(3) have "s = (coarse, coarse)" by (simp add: fci_cases)
    with assms(2) show ?thesis by simp
  next
    case 2
    with assms(3) have "search_larger (coarse + 1) coarse False = Inr s" by (simp add: fci_cases)
    moreover have "1 \<le> coarse + 1" using assms(2) by simp
    ultimately show ?thesis using assms(2) by (intro search_larger_divides)
  next
    case 3
    with assms(3) have "search_larger dense coarse ii = Inr s" by (simp add: fci_cases)
    with assms(1,2) show ?thesis by (intro search_larger_divides)
  qed
qed

lemma fci_error:
  assumes "1 \<le> coarse" and "find_commensurate_integers dense coarse ii = Inl e"
  shows "e = OverflowError"
proof -
  have pos: "0 < coarse" using assms(1) by simp
  consider "dense \<le> coarse" "ii" | "dense \<le> coarse" "\<not> ii" | "\<not> dense \<le> coarse" by blast
  then show ?thesis
  proof cases
    case 1
    with assms(2) show ?thesis by (simp add: fci_cases)
  next
    case 2
    with assms(2) have "search_larger (coarse + 1) coarse False = Inl e" by (simp add: fci_cases)
    with pos show ?thesis by (rule search_larger_error)
  next
    case 3
    with assms(2) have "search_larger dense coarse ii = Inl e" by (simp add: fci_cases)
    with pos show ?thesis by (rule search_larger_error)
  qed
qed

subsection \<open>Nothing but arithmetic errors\<close>

lemma inner_loop_error: "inner_loop nd ncs vs = Inl e \<Longrightarrow> e = ZeroDivisionError"
  by (induction ncs arbitrary: vs) (auto split: if_splits)

lemma outer_loop_error: "outer_loop ii coarse nds vs = Inl e \<Longrightarrow> e = ZeroDivisionError"
proof (induction nds arbitrary: vs)
  case Nil
  then show ?case by simp
next
  case (Cons nd nds)
  let ?lim = "if ii then nd div klow + 1 else nd div klow"
  show ?case
  proof (cases "inner_loop nd (py_range coarse ?lim) vs")
    case (Inl e')
    with Cons.prems have "e' = e" by (simp add: Let_def)
    with Inl show ?thesis by (simp add: inner_loop_error)
  next
    case (Inr us)
    with Cons.prems have "outer_loop ii coarse nds us = Inl e" by (simp add: Let_def)
    then show ?thesis by (rule Cons.IH)
  qed
qed

lemma search_larger_error_kind:
  assumes "search_larger dense coarse ii = Inl e"
  shows "e = ZeroDivisionError \<or> e = OverflowError"
proof (cases "coarse = 0")
  case True
  with assms show ?thesis by (simp add: search_larger_zero)
next
  case False
  show ?thesis
  proof (cases "ceil_true_div dense coarse")
    case (Inl e')
    with assms have "e' = e" by (simp add: search_larger_def)
    with Inl False show ?thesis using ceil_true_div_error [of coarse dense e] by simp
  next
    case kh: (Inr khigh)
    show ?thesis
    proof (cases "collect_solutions dense coarse ii khigh")
      case (Inl e')
      with kh assms have e: "e' = e" by (simp add: search_larger_def)
      let ?init = "if ii then [(coarse * khigh, coarse), (dense, dense)]
        else [(coarse * khigh, coarse)]"
      have "outer_loop ii coarse (py_range dense (coarse * khigh)) ?init = Inl e"
        using Inl e by (simp only: collect_solutions_unfold)
      then have "e = ZeroDivisionError" by (rule outer_loop_error)
      then show ?thesis by simp
    next
      case (Inr vs)
      let ?init = "if ii then [(coarse * khigh, coarse), (dense, dense)]
        else [(coarse * khigh, coarse)]"
      have "outer_loop ii coarse (py_range dense (coarse * khigh)) ?init = Inr vs"
        using Inr by (simp only: collect_solutions_unfold)
      from outer_loop_appends [OF this] obtain ws where "vs = ?init @ ws" by blast
      then have "vs \<noteq> []" by (simp split: if_splits)
      moreover have "select_minimal vs = Inl e" using kh Inr assms by (simp add: search_larger_def)
      ultimately have "e = OverflowError" by (rule select_minimal_error)
      then show ?thesis by simp
    qed
  qed
qed

lemma fci_error_kind:
  assumes "find_commensurate_integers dense coarse ii = Inl e"
  shows "e = ZeroDivisionError \<or> e = OverflowError"
proof -
  consider "dense \<le> coarse" "ii" | "dense \<le> coarse" "\<not> ii" | "\<not> dense \<le> coarse" by blast
  then show ?thesis
  proof cases
    case 1
    with assms show ?thesis by (simp add: fci_cases)
  next
    case 2
    with assms have "search_larger (coarse + 1) coarse False = Inl e" by (simp add: fci_cases)
    then show ?thesis by (rule search_larger_error_kind)
  next
    case 3
    with assms have "search_larger dense coarse ii = Inl e" by (simp add: fci_cases)
    then show ?thesis by (rule search_larger_error_kind)
  qed
qed

subsection \<open>Axis counts up to \<open>2\<^sup>5\<^sup>2\<close>: the quotient is rounded up exactly\<close>

text \<open>
  The double nearest to \<open>x \<ge> 1\<close> is off by at most \<open>x / 2\<^sup>5\<^sup>3\<close>. For
  \<open>1 \<le> coarse \<le> dense \<le> 2\<^sup>5\<^sup>2\<close> that is less than the distance \<open>1 / coarse\<close> of a quotient
  that is not an integer from the integer below it, so \<^verbatim>\<open>math.ceil(dense / coarse)\<close> is
  the ceiling of the exact quotient. Then no number of the returned pair is smaller than
  the input, and the dense number is at most \<open>coarse * ceil(dense / coarse)\<close>.
\<close>

lemma rint_lower: "y - 1 / 2 \<le> of_int (rint y)"
proof -
  have "of_int \<lfloor>y\<rfloor> \<le> y" "y < of_int \<lfloor>y\<rfloor> + 1" by linarith+
  then show ?thesis by (auto simp: rint_def Let_def)
qed

lemma float_round_lower:
  assumes "1 \<le> x"
  shows "x - x / 2 ^ 53 \<le> float_round x"
proof -
  from assms have pos: "0 < x" by simp
  define e where "e = binary_exponent x"
  from binary_exponent_bounds [OF pos] have lo: "pow2 e \<le> x" and hi: "x < pow2 (e + 1)"
    by (simp_all add: e_def)
  have "pow2 0 = 1" by (simp add: pow2_def)
  with assms hi have "pow2 0 < pow2 (e + 1)" by simp
  then have "0 < e + 1" by (rule pow2_less_cancel)
  then have e0: "0 \<le> e" by simp
  let ?q = "pow2 (e - 52)"
  have qpos: "0 < ?q" by (rule pow2_pos)
  have "\<bar>x\<bar> = x" using pos by simp
  then have "e = max (binary_exponent \<bar>x\<bar>) (- 1022)" using e0 by (simp add: e_def)
  with pos have fr: "float_round x = of_int (rint (x / ?q)) * ?q"
    by (intro float_round_unfold) simp_all
  have "x / ?q - 1 / 2 \<le> of_int (rint (x / ?q))" by (rule rint_lower)
  then have "(x / ?q - 1 / 2) * ?q \<le> of_int (rint (x / ?q)) * ?q"
    using qpos by (simp only: mult_le_cancel_right_pos)
  moreover have "(x / ?q - 1 / 2) * ?q = x - ?q / 2" using qpos by (simp add: field_simps)
  ultimately have a: "x - ?q / 2 \<le> float_round x" by (simp only: fr)
  have "pow2 52 = 2 ^ 52" using pow2_nat [of 52] by simp
  then have "?q = pow2 e / 2 ^ 52" by (simp add: pow2_diff)
  then have "?q / 2 = pow2 e / 2 ^ 53" by simp
  also have "\<dots> \<le> x / 2 ^ 53" using lo by (simp add: divide_right_mono)
  finally show ?thesis using a by linarith
qed

lemma ceil_true_div_exact:
  assumes "1 \<le> coarse" and "coarse \<le> dense" and "dense \<le> 2 ^ 52"
  shows "ceil_true_div dense coarse = Inr \<lceil>rat_of_int dense / rat_of_int coarse\<rceil>"
proof -
  define x where "x = rat_of_int dense / rat_of_int coarse"
  define q where "q = \<lfloor>x\<rfloor>"
  from assms have cpos: "0 < rat_of_int coarse" by simp
  from assms have "rat_of_int coarse \<le> rat_of_int dense" by simp
  with cpos have x1: "1 \<le> x" by (simp add: x_def field_simps)
  have xc: "x * rat_of_int coarse = rat_of_int dense" using cpos by (simp add: x_def)
  have "rat_of_int dense \<le> rat_of_int dense * rat_of_int coarse"
    using assms by (simp add: mult_le_cancel_left1)
  then have xd: "x \<le> rat_of_int dense" using cpos by (simp add: x_def field_simps)
  have ql: "of_int q \<le> x" and qu: "x < of_int q + 1" unfolding q_def by linarith+
  from x1 have q1: "1 \<le> q" by (simp add: q_def)
  from ql xd have "rat_of_int q \<le> rat_of_int dense" by simp
  then have "q \<le> dense" by (simp only: of_int_le_iff)
  with assms have q52: "q \<le> 2 ^ 52" by simp
  have fq: "float_round (of_int q) = of_int q"
    using q1 q52 by (intro float_round_int) simp
  have fq1: "float_round (of_int (q + 1)) = of_int (q + 1)"
    using q1 q52 by (intro float_round_int) simp
  have "float_round (of_int q) \<le> float_round x"
    using q1 ql by (intro float_round_mono) simp_all
  with fq have lo: "of_int q \<le> float_round x" by simp
  have "float_round x \<le> float_round (of_int (q + 1))"
    using x1 qu by (intro float_round_mono) simp_all
  with fq1 have hi: "float_round x \<le> of_int q + 1" by simp
  have "of_int q + 1 \<le> (2::rat) ^ 52 + 1" using q52
    by (metis add_right_mono of_int_le_iff of_int_numeral of_int_power)
  also have "\<dots> \<le> pow2 200" using pow2_nat [of 200] by simp
  finally have "of_int q + 1 < float_limit" by (rule below_float_limit)
  with lo hi q1 have lim: "\<not> float_limit \<le> \<bar>float_round x\<bar>" by simp
  have c0: "coarse \<noteq> 0" using assms by simp
  have res: "ceil_true_div dense coarse = Inr \<lceil>float_round x\<rceil>"
    using c0 lim by (simp add: ceil_true_div_def Let_def x_def)
  have "\<lceil>float_round x\<rceil> = \<lceil>x\<rceil>"
  proof (cases "x = of_int q")
    case True
    with fq show ?thesis by simp
  next
    case False
    with ql have "of_int q < x" by simp
    then have "of_int q * rat_of_int coarse < x * rat_of_int coarse"
      using cpos by (simp only: mult_less_cancel_right_pos)
    then have "rat_of_int (q * coarse) < rat_of_int dense" by (simp add: xc)
    then have "q * coarse < dense" by (simp only: of_int_less_iff)
    then have "q * coarse + 1 \<le> dense" by simp
    then have "rat_of_int (q * coarse + 1) \<le> rat_of_int dense" by (simp only: of_int_le_iff)
    then have "of_int q * rat_of_int coarse + 1 \<le> x * rat_of_int coarse" by (simp add: xc)
    then have gap: "of_int q + 1 / rat_of_int coarse \<le> x"
      using cpos by (simp add: field_simps)
    have "rat_of_int dense < 2 ^ 53"
    proof -
      have "dense < 2 ^ 53" using assms(3) by simp
      then have "rat_of_int dense < rat_of_int (2 ^ 53)" by (simp only: of_int_less_iff)
      then show ?thesis by simp
    qed
    then have "rat_of_int dense / 2 ^ 53 < 1" by simp
    then have "rat_of_int dense / 2 ^ 53 / rat_of_int coarse < 1 / rat_of_int coarse"
      using cpos by (simp only: divide_strict_right_mono)
    then have "x / 2 ^ 53 < 1 / rat_of_int coarse" by (simp add: x_def)
    with gap float_round_lower [OF x1] have "of_int q < float_round x" by linarith
    with hi have "\<lceil>float_round x\<rceil> = q + 1" by (intro ceiling_unique) simp_all
    moreover from \<open>of_int q < x\<close> qu have "\<lceil>x\<rceil> = q + 1" by (intro ceiling_unique) simp_all
    ultimately show ?thesis by simp
  qed
  with res show ?thesis by (simp add: x_def)
qed

lemma ceiling_quotient_bounds:
  assumes "0 < coarse"
  shows "dense \<le> coarse * \<lceil>rat_of_int dense / rat_of_int coarse\<rceil>"
    and "coarse * \<lceil>rat_of_int dense / rat_of_int coarse\<rceil> < dense + coarse"
proof -
  let ?x = "rat_of_int dense / rat_of_int coarse"
  from assms have cpos: "0 < rat_of_int coarse" by simp
  have xc: "?x * rat_of_int coarse = rat_of_int dense" using cpos by simp
  have "?x \<le> of_int \<lceil>?x\<rceil>" by (rule le_of_int_ceiling)
  then have "?x * rat_of_int coarse \<le> of_int \<lceil>?x\<rceil> * rat_of_int coarse"
    using cpos by (simp only: mult_le_cancel_right_pos)
  then have "rat_of_int dense \<le> rat_of_int (coarse * \<lceil>?x\<rceil>)"
    by (simp only: xc) (simp add: mult.commute)
  then show "dense \<le> coarse * \<lceil>?x\<rceil>" by (simp only: of_int_le_iff)
  have "of_int \<lceil>?x\<rceil> < ?x + 1" by linarith
  then have "of_int \<lceil>?x\<rceil> * rat_of_int coarse < (?x + 1) * rat_of_int coarse"
    using cpos by (simp only: mult_less_cancel_right_pos)
  also have "(?x + 1) * rat_of_int coarse = rat_of_int dense + rat_of_int coarse"
    by (simp only: distrib_right xc)
  finally have "rat_of_int (coarse * \<lceil>?x\<rceil>) < rat_of_int (dense + coarse)"
    by (simp add: mult.commute)
  then show "coarse * \<lceil>?x\<rceil> < dense + coarse" by (simp only: of_int_less_iff)
qed

lemma search_larger_bounds:
  assumes "1 \<le> coarse" and "coarse \<le> dense" and "dense \<le> 2 ^ 52"
    and "search_larger dense coarse ii = Inr s"
  shows "dense \<le> fst s" and "coarse \<le> snd s"
    and "fst s \<le> coarse * \<lceil>rat_of_int dense / rat_of_int coarse\<rceil>"
proof -
  let ?k = "\<lceil>rat_of_int dense / rat_of_int coarse\<rceil>"
  from assms(1) have cpos: "0 < coarse" by simp
  note lo = ceiling_quotient_bounds(1) [OF cpos, of dense]
  from search_larger_result [OF assms(4)] obtain khigh where
    kh: "ceil_true_div dense coarse = Inr khigh"
    and s: "s = (coarse * khigh, coarse) \<or> ii \<and> s = (dense, dense)
            \<or> dense \<le> fst s \<and> fst s < coarse * khigh \<and> coarse \<le> snd s \<and> snd s \<le> fst s
              \<and> fst s mod snd s = 0"
    by (elim exE conjE)
  from kh ceil_true_div_exact [OF assms(1,2,3)] have k: "khigh = ?k" by simp
  from s consider "s = (coarse * ?k, coarse)" | "s = (dense, dense)"
    | "dense \<le> fst s" "fst s < coarse * ?k" "coarse \<le> snd s"
    unfolding k by (elim disjE conjE)
  then have "dense \<le> fst s \<and> coarse \<le> snd s \<and> fst s \<le> coarse * ?k"
  proof cases
    case 1
    with lo show ?thesis by simp
  next
    case 2
    with lo assms(2) show ?thesis by simp
  next
    case 3
    then show ?thesis by simp
  qed
  then show "dense \<le> fst s" and "coarse \<le> snd s" and "fst s \<le> coarse * ?k"
    by (rule conjunct1, rule conjunct2 [THEN conjunct1], rule conjunct2 [THEN conjunct2])
qed

lemma fci_not_smaller:
  assumes "1 \<le> dense" and "1 \<le> coarse" and "dense \<le> 2 ^ 52" and "coarse < 2 ^ 52"
    and "find_commensurate_integers dense coarse ii = Inr s"
  shows "dense \<le> fst s \<and> coarse \<le> snd s"
proof (cases "dense \<le> coarse")
  case le: True
  show ?thesis
  proof (cases ii)
    case True
    with le assms(5) have "s = (coarse, coarse)" by (simp add: fci_cases)
    with le show ?thesis by simp
  next
    case False
    with le assms(5) have sl: "search_larger (coarse + 1) coarse False = Inr s"
      by (simp add: fci_cases)
    have "coarse \<le> coarse + 1" and "coarse + 1 \<le> 2 ^ 52" using assms(4) by simp_all
    from search_larger_bounds(1,2) [OF assms(2) this sl]
    have "coarse + 1 \<le> fst s" and "coarse \<le> snd s" .
    with le show ?thesis by simp
  qed
next
  case False
  with assms(5) have sl: "search_larger dense coarse ii = Inr s" by (simp add: fci_cases)
  from False have "coarse \<le> dense" by simp
  from search_larger_bounds(1,2) [OF assms(2) this assms(3) sl]
  show ?thesis by (rule conjI)
qed

lemma fci_growth_bounded:
  assumes "1 \<le> coarse" and "coarse < dense" and "dense \<le> 2 ^ 52"
    and "find_commensurate_integers dense coarse True = Inr s"
  shows "fst s \<le> coarse * \<lceil>rat_of_int dense / rat_of_int coarse\<rceil> \<and> fst s < dense + coarse"
proof -
  from assms(2,4) have sl: "search_larger dense coarse True = Inr s" by (simp add: fci_cases)
  from assms(2) have "coarse \<le> dense" by simp
  from search_larger_bounds(3) [OF assms(1) this assms(3) sl]
  have a: "fst s \<le> coarse * \<lceil>rat_of_int dense / rat_of_int coarse\<rceil>" .
  from assms(1) have "0 < coarse" by simp
  from ceiling_quotient_bounds(2) [OF this, of dense] a show ?thesis by simp
qed

subsection \<open>The search at particular inputs\<close>

lemma float_round_at:
  assumes "0 < x" and "pow2 e \<le> x" and "x < pow2 (e + 1)" and "- 1022 \<le> e"
  shows "float_round x = of_int (rint (x / pow2 (e - 52))) * pow2 (e - 52)"
proof -
  have "binary_exponent \<bar>x\<bar> = e"
    using assms(1-3) by (intro binary_exponent_unique) simp_all
  then have "e = max (binary_exponent \<bar>x\<bar>) (- 1022)" using assms(4) by simp
  moreover have "x \<noteq> 0" using assms(1) by simp
  ultimately show ?thesis by (intro float_round_unfold)
qed

lemma float_round_half: "float_round (of_int m / 2) = of_int m / 2" if "\<bar>m\<bar> < 2 ^ 53" for m
proof (cases "m = 0")
  case True
  then show ?thesis by (simp add: float_round_def)
next
  case False
  with that have "float_round (of_int m * pow2 (- 1)) = of_int m * pow2 (- 1)"
    by (intro float_round_dyadic) simp_all
  then show ?thesis by (simp add: pow2_def power_int_minus)
qed

lemma floor_half: "\<lfloor>rat_of_int k / 2\<rfloor> = k div 2"
  using floor_divide_of_int_eq [of k 2, where ?'a = rat] by simp

lemma rint_half_odd:
  assumes "odd k"
  shows "rint (rat_of_int k / 2) = (if even (k div 2) then k div 2 else k div 2 + 1)"
proof -
  from assms obtain j where k: "k = 2 * j + 1" by (elim oddE)
  have "\<lfloor>rat_of_int k / 2\<rfloor> = k div 2" by (rule floor_half)
  also have "k div 2 = j" by (simp add: k)
  finally have fl: "\<lfloor>rat_of_int k / 2\<rfloor> = j" .
  have "rat_of_int k / 2 - of_int j = 1 / 2" by (simp add: k field_simps)
  then show ?thesis by (simp add: rint_def Let_def fl) (simp add: k)
qed

lemma ceiling_half: "\<lceil>rat_of_int k / 2\<rceil> = - (- k div 2)"
  using ceiling_divide_eq_div [of k 2, where ?'a = rat] by simp

lemma float_round_2p53_1: "float_round 9007199254740993 = 9007199254740992"
proof -
  have "float_round 9007199254740993 =
      of_int (rint (9007199254740993 / pow2 (53 - 52))) * pow2 (53 - 52)"
    by (rule float_round_at) (simp_all add: pow2_def)
  also have "\<dots> = of_int (rint (rat_of_int 9007199254740993 / 2)) * 2" by (simp add: pow2_def)
  also have "\<dots> = 9007199254740992" using rint_half_odd [of 9007199254740993] by simp
  finally show ?thesis .
qed

lemma float_round_2p53_3: "float_round 9007199254740995 = 9007199254740996"
proof -
  have "float_round 9007199254740995 =
      of_int (rint (9007199254740995 / pow2 (53 - 52))) * pow2 (53 - 52)"
    by (rule float_round_at) (simp_all add: pow2_def)
  also have "\<dots> = of_int (rint (rat_of_int 9007199254740995 / 2)) * 2" by (simp add: pow2_def)
  also have "\<dots> = 9007199254740996" using rint_half_odd [of 9007199254740995] by simp
  finally show ?thesis .
qed

lemma float_round_2p53_5: "float_round 9007199254740997 = 9007199254740996"
proof -
  have "float_round 9007199254740997 =
      of_int (rint (9007199254740997 / pow2 (53 - 52))) * pow2 (53 - 52)"
    by (rule float_round_at) (simp_all add: pow2_def)
  also have "\<dots> = of_int (rint (rat_of_int 9007199254740997 / 2)) * 2" by (simp add: pow2_def)
  also have "\<dots> = 9007199254740996" using rint_half_odd [of 9007199254740997] by simp
  finally show ?thesis .
qed

lemma float_limit_gt: "9007199254740997 < float_limit" "18014398509481984 < float_limit"
  by (rule below_float_limit, simp add: pow2_def)+

lemma ceil_5_2: "ceil_true_div 5 2 = Inr 3"
proof -
  have "float_round (of_int 5 / 2) = of_int 5 / 2" by (rule float_round_half) simp
  then have fr: "float_round (5 / 2) = 5 / 2" by simp
  have "(5 / 2 :: rat) < float_limit" by (rule below_float_limit) (simp add: pow2_def)
  moreover have "\<lceil>5 / 2 :: rat\<rceil> = 3" using ceiling_half [of 5] by simp
  ultimately show ?thesis by (simp add: ceil_true_div_def fr)
qed

lemma ceil_5_m2: "ceil_true_div 5 (- 2) = Inr (- 2)"
proof -
  have "float_round (of_int (- 5) / 2) = of_int (- 5) / 2" by (rule float_round_half) simp
  then have fr: "float_round (- (5 / 2)) = - (5 / 2)" by simp
  have "(5 / 2 :: rat) < float_limit" by (rule below_float_limit) (simp add: pow2_def)
  moreover have "\<lceil>- (5 / 2) :: rat\<rceil> = - 2" using ceiling_half [of "- 5"] by simp
  ultimately show ?thesis by (simp add: ceil_true_div_def fr)
qed

lemma ceil_2p53_1: "ceil_true_div 9007199254740993 1 = Inr 9007199254740992"
  using float_limit_gt by (simp add: ceil_true_div_def float_round_2p53_1)

lemma ceil_2p53_3: "ceil_true_div 9007199254740995 1 = Inr 9007199254740996"
  using float_limit_gt by (simp add: ceil_true_div_def float_round_2p53_3)

lemma five_two_candidates: "collect_solutions 5 2 True 3 = Inr [(6, 2), (5, 5), (5, 5)]"
  by (simp add: collect_solutions_def py_range_def klow_def upto.simps)

lemma five_two_costs: "costs_of [(6, 2), (5, 5), (5, 5)] = Inr [8, 10, 10]"
  by (simp add: cost_exact)

lemma five_two_argmin: "argmin [8, 10, 10] = Inr 0"
  by (simp add: argmin_def)

lemma five_two: "find_commensurate_integers 5 2 True = Inr (6, 2)"
  by (simp add: fci_larger search_larger_def ceil_5_2 five_two_candidates select_minimal_def
      five_two_costs five_two_argmin get_item_def del: costs_of.simps)

lemma five_minus_two: "find_commensurate_integers 5 (- 2) True = Inr (4, - 2)"
proof -
  have c: "collect_solutions 5 (- 2) True (- 2) = Inr [(4, - 2), (5, 5)]"
    by (simp add: collect_solutions_def py_range_def)
  have k: "costs_of [(4, - 2), (5, 5)] = Inr [2, 10]"
    by (simp add: cost_exact)
  have a: "argmin [2, 10] = Inr 0" by (simp add: argmin_def)
  show ?thesis
    by (simp add: fci_larger search_larger_def ceil_5_m2 c select_minimal_def k a get_item_def
        del: costs_of.simps)
qed

lemma float_of_int_2p53_1: "float_of_int 9007199254740993 = Inr 9007199254740992"
  using float_limit_gt by (simp add: float_of_int_def float_round_2p53_1)

lemma float_of_int_2p53_3: "float_of_int 9007199254740995 = Inr 9007199254740996"
  using float_limit_gt by (simp add: float_of_int_def float_round_2p53_3)

lemma float_round_2p54: "float_round 18014398509481984 = 18014398509481984"
  using float_round_pow2 [of 54] by (simp add: pow2_def)

lemma float_round_2p53_4: "float_round 9007199254740996 = 9007199254740996"
  using float_round_dyadic [of 2251799813685249 2] by (simp add: pow2_def)

lemma float_of_int_2p53_4: "float_of_int 9007199254740996 = Inr 9007199254740996"
  using float_limit_gt by (simp add: float_of_int_def float_round_2p53_4)

lemma float_add_2p53_1: "float_add 9007199254740992 1 = 9007199254740992"
  using float_limit_gt by (simp add: float_add_def float_round_2p53_1)

lemma float_add_2p53_2p53:
  "float_add 9007199254740992 9007199254740992 = 18014398509481984"
  using float_limit_gt by (simp add: float_add_def float_round_2p54)

lemma float_add_2p53_4_1: "float_add 9007199254740996 1 = 9007199254740996"
  using float_limit_gt by (simp add: float_add_def float_round_2p53_5)

lemma shrinking_input:
  "find_commensurate_integers 9007199254740993 1 True = Inr (9007199254740992, 1)"
proof -
  have c: "collect_solutions 9007199254740993 1 True 9007199254740992 =
      Inr [(9007199254740992, 1), (9007199254740993, 9007199254740993)]"
    by (simp add: collect_solutions_def py_range_def)
  have one: "float_of_int 1 = Inr 1" using float_of_int_exact [of 1] by simp
  have big: "float_of_int 9007199254740992 = Inr 9007199254740992"
    using float_of_int_exact [of 9007199254740992] by simp
  have k: "costs_of [(9007199254740992, 1), (9007199254740993, 9007199254740993)] =
      Inr [9007199254740992, 18014398509481984]"
    by (simp add: cost_def one big float_of_int_2p53_1 float_add_2p53_1 float_add_2p53_2p53)
  have a: "argmin [9007199254740992, 18014398509481984] = Inr 0" by (simp add: argmin_def)
  show ?thesis
    by (simp add: fci_larger search_larger_def ceil_2p53_1 c select_minimal_def k a get_item_def
        del: costs_of.simps)
qed

lemma float_of_int_ge_one:
  assumes "1 \<le> n" and "n \<le> 2 ^ 199"
  shows "\<exists>b. float_of_int n = Inr b \<and> 1 \<le> b"
proof -
  have n0: "0 \<le> n" using assms(1) by simp
  from float_of_int_bounded [OF n0 assms(2)] obtain b where b: "float_of_int n = Inr b" by blast
  then have eq: "b = float_round (rat_of_int n)"
    by (simp add: float_of_int_def Let_def split: if_splits)
  have "float_round 1 \<le> float_round (rat_of_int n)"
    using assms(1) by (intro float_round_mono) simp_all
  moreover have "float_round 1 = 1" using float_round_int [of 1] by simp
  ultimately have "1 \<le> b" by (simp add: eq)
  with b show ?thesis by blast
qed

lemma float_add_lower:
  assumes "1 \<le> b"
  shows "9007199254740996 \<le> float_add 9007199254740996 b"
proof -
  let ?r = "float_round (9007199254740996 + b)"
  have "float_round 9007199254740997 \<le> ?r"
    using assms by (intro float_round_mono) simp_all
  then have r: "9007199254740996 \<le> ?r" by (simp add: float_round_2p53_5)
  have lim: "9007199254740996 \<le> float_limit" using float_limit_gt(1) by simp
  then have "\<not> ?r \<le> - float_limit" using r by simp
  with r lim show ?thesis by (simp add: float_add_def Let_def)
qed

lemma overshooting_costs:
  assumes "collect_solutions 9007199254740995 1 True 9007199254740996 = Inr vs"
    and "s \<in> set vs"
  shows "\<exists>c. cost s = Inr c \<and> 9007199254740996 \<le> c"
proof -
  have one: "float_of_int 1 = Inr 1" using float_of_int_exact [of 1] by simp
  have base: "cost (9007199254740996, 1) = Inr 9007199254740996"
    by (simp add: cost_def float_of_int_2p53_4 one float_add_2p53_4_1)
  have other: "\<exists>c. cost (9007199254740995, nc) = Inr c \<and> 9007199254740996 \<le> c"
    if "1 \<le> nc" "nc \<le> 9007199254740995" for nc
  proof -
    have "nc \<le> 2 ^ 199" using that(2) by simp
    from float_of_int_ge_one [OF that(1) this] obtain b where
      b: "float_of_int nc = Inr b" "1 \<le> b" by blast
    have "cost (9007199254740995, nc) = Inr (float_add 9007199254740996 b)"
      by (simp add: cost_def float_of_int_2p53_3 b(1))
    with float_add_lower [OF b(2)] show ?thesis by simp
  qed
  from collect_solutions_members [OF assms]
  show ?thesis
  proof (elim disjE conjE)
    assume "s = (1 * 9007199254740996, 1)"
    with base show ?thesis by simp
  next
    assume "s = (9007199254740995, 9007199254740995)"
    with other [of 9007199254740995] show ?thesis by simp
  next
    assume "9007199254740995 \<le> fst s" "fst s < 1 * 9007199254740996"
      "1 \<le> snd s" "snd s \<le> fst s"
    then have "fst s = 9007199254740995" "1 \<le> snd s" "snd s \<le> 9007199254740995" by simp_all
    with other [of "snd s"] show ?thesis by (cases s) simp
  qed
qed

lemma overshooting_input:
  "find_commensurate_integers 9007199254740995 1 True = Inr (9007199254740996, 1)"
proof -
  from collect_solutions_total [of 1 9007199254740995 True 9007199254740996] obtain vs where
    vs: "collect_solutions 9007199254740995 1 True 9007199254740996 = Inr vs"
    and ne: "vs \<noteq> []" and first: "vs ! 0 = (9007199254740996, 1)"
    by auto
  have "\<exists>cs. costs_of vs = Inr cs"
    using overshooting_costs [OF vs] by (intro costs_of_total) blast
  then obtain cs where cs: "costs_of vs = Inr cs" ..
  from costs_of_nth [OF cs] have len: "length cs = length vs"
    and nth: "\<forall>i < length vs. cost (vs ! i) = Inr (cs ! i)" by simp_all
  have least: "9007199254740996 \<le> cs ! i" if "i < length cs" for i
  proof -
    from that len have i: "i < length vs" by simp
    then have "vs ! i \<in> set vs" by simp
    from overshooting_costs [OF vs this] obtain c where
      "cost (vs ! i) = Inr c" "9007199254740996 \<le> c" by blast
    with nth i show ?thesis by simp
  qed
  have one: "float_of_int 1 = Inr 1" using float_of_int_exact [of 1] by simp
  have "cost (vs ! 0) = Inr 9007199254740996"
    by (simp add: first cost_def float_of_int_2p53_4 one float_add_2p53_4_1)
  moreover have "0 < length vs" using ne by simp
  ultimately have c0: "cs ! 0 = 9007199254740996" using nth by auto
  from ne len obtain c rest where split: "cs = c # rest" by (cases cs) auto
  with c0 have c: "c = 9007199254740996" by simp
  have "c \<le> x" if "x \<in> set rest" for x
  proof -
    from that obtain j where "j < length rest" "x = rest ! j" by (auto simp: in_set_conv_nth)
    then have "Suc j < length cs" "x = cs ! Suc j" by (simp_all add: split)
    with least [of "Suc j"] c show ?thesis by simp
  qed
  then have "argmin (c # rest) = Inr 0" by (rule argmin_first)
  then have "select_minimal vs = Inr (vs ! 0)"
    using cs split ne by (simp add: select_minimal_def get_item_def)
  then show ?thesis
    by (simp add: fci_larger search_larger_def ceil_2p53_3 vs first)
qed

section \<open>The claims of the specification\<close>

text \<open>
  Claim C1. For axis counts \<open>dense \<ge> 1\<close> and \<open>coarse \<ge> 1\<close> and either value of
  \<^verbatim>\<open>include_identical\<close>, every pair the solver returns has a coarse number of at least 1
  that divides the dense number. The solver raises nothing but an \<^verbatim>\<open>OverflowError\<close>
  (for counts beyond the doubles), and for counts up to \<open>2\<^sup>6\<^sup>4\<close> it does return a pair.
\<close>

theorem solver_commensurate:
  assumes "1 \<le> dense" and "1 \<le> coarse"
  shows "(\<forall>new_dense new_coarse.
            find_commensurate_integers dense coarse include_identical = Inr (new_dense, new_coarse)
            \<longrightarrow> 1 \<le> new_coarse \<and> new_dense mod new_coarse = 0)
    \<and> (\<forall>e. find_commensurate_integers dense coarse include_identical = Inl e
            \<longrightarrow> e = OverflowError)
    \<and> (dense \<le> 2 ^ 64 \<and> coarse \<le> 2 ^ 64 \<longrightarrow>
          (\<exists>new_dense new_coarse.
             find_commensurate_integers dense coarse include_identical
               = Inr (new_dense, new_coarse)))"
proof (intro conjI allI impI)
  fix new_dense new_coarse
  assume "find_commensurate_integers dense coarse include_identical = Inr (new_dense, new_coarse)"
  from fci_divides [OF assms this]
  show "1 \<le> new_coarse" and "new_dense mod new_coarse = 0" by simp_all
next
  fix e
  assume "find_commensurate_integers dense coarse include_identical = Inl e"
  with assms(2) show "e = OverflowError" by (rule fci_error)
next
  assume "dense \<le> 2 ^ 64 \<and> coarse \<le> 2 ^ 64"
  then have "\<exists>s. find_commensurate_integers dense coarse include_identical = Inr s"
    using assms by (intro fci_total) simp_all
  then show "\<exists>new_dense new_coarse.
      find_commensurate_integers dense coarse include_identical = Inr (new_dense, new_coarse)"
    by simp
qed

theorem solver_commensurate_witness:
  "(1::int) \<le> 5 \<and> (1::int) \<le> 2 \<and> (5::int) \<le> 2 ^ 64 \<and> (2::int) \<le> 2 ^ 64
   \<and> (\<exists>new_dense new_coarse.
          find_commensurate_integers 5 2 True = Inr (new_dense, new_coarse)
          \<and> 1 \<le> new_coarse \<and> new_dense mod new_coarse = 0)"
  using solver_commensurate [of 5 2 True] by auto

text \<open>
  Claim C2. For \<open>1 \<le> dense \<le> coarse\<close> and \<^verbatim>\<open>include_identical=True\<close> the solver returns
  exactly \<open>(coarse, coarse)\<close>.
\<close>

theorem solver_identical_branch:
  assumes "1 \<le> dense" and "dense \<le> coarse"
  shows "find_commensurate_integers dense coarse True = Inr (coarse, coarse)"
  using assms(2) by (rule fci_identical)

theorem solver_identical_branch_witness:
  "(1::int) \<le> 3 \<and> (3::int) \<le> 5 \<and> find_commensurate_integers 3 5 True = Inr (5, 5)"
  using solver_identical_branch [of 3 5] by simp

text \<open>
  Claim C3 says that neither number of the returned pair is smaller than the
  corresponding input. For \<open>dense = 2\<^sup>5\<^sup>3 + 1\<close> and \<open>coarse = 1\<close> the double nearest to the
  quotient is \<open>2\<^sup>5\<^sup>3\<close>, so \<^verbatim>\<open>khigh\<close> is \<open>2\<^sup>5\<^sup>3\<close>, the range of the search is empty, and
  the solver returns \<open>(2\<^sup>5\<^sup>3, 1)\<close>: a dense number below the input, where the docstring
  promises to increase the two integers. For counts up to \<open>2\<^sup>5\<^sup>2\<close> the quotient is rounded
  up exactly and the claim holds (lemma \<open>fci_not_smaller\<close>).
\<close>

theorem solver_shrinks_dense:
  "find_commensurate_integers 9007199254740993 1 True = Inr (9007199254740992, 1)
   \<and> (9007199254740992 :: int) < 9007199254740993"
  by (simp add: shrinking_input)

text \<open>
  Claim C4, as the specification states it: for the coarse points \<open>[(0,0,0)]\<close> and the
  dense points \<open>[(0,0,0), (1,0,0), (0.5,0,0)]\<close> the mapper returns the one entry
  \<open>(1, 1, start_band, end_band)\<close>. The code does not: the difference
  \<open>(0,0,0) - (1,0,0) = (-1,0,0)\<close> has all its components among \<open>0, 1, -1\<close>, so the
  second dense point matches as well. Shown for the bands 1 and 4.
\<close>

theorem kmapper_three_dense_points_counterexample:
  "kmapper [(0, 0, 0), (1, 0, 0), (1 / 2, 0, 0)] [(0, 0, 0)] 1 4 \<noteq> [(1, 1, 1, 4)]"
  by (simp add: kmapper_def kpoint_sub_def kpoint_around_def around5_def rint_def opt_def)

text \<open>
  Claim C4, amended: for these point sets and any bands the mapper returns exactly the two
  entries for the dense positions 1 and 2, in that order; the third dense point, at
  distance \<open>0.5\<close>, does not match.
\<close>

theorem kmapper_three_dense_points:
  "kmapper [(0, 0, 0), (1, 0, 0), (1 / 2, 0, 0)] [(0, 0, 0)] start_band end_band
     = [(1, 1, start_band, end_band), (2, 2, start_band, end_band)]"
  by (simp add: kmapper_def kpoint_sub_def kpoint_around_def around5_def rint_def opt_def)

text \<open>
  Claim C5. For the coarse points \<open>[(0,0,0)]\<close> and the dense points
  \<open>[(0,0,0), (1,0,0)]\<close> the mapper returns exactly two entries, for the dense positions
  1 and 2 in that order: every periodic image is recorded, the scan does not stop at the
  first match.
\<close>

theorem kmapper_periodic_images:
  "kmapper [(0, 0, 0), (1, 0, 0)] [(0, 0, 0)] start_band end_band
     = [(1, 1, start_band, end_band), (2, 2, start_band, end_band)]"
  by (simp add: kmapper_def kpoint_sub_def kpoint_around_def around5_def rint_def opt_def)

text \<open>
  Claim C6. \<^verbatim>\<open>find_commensurate_integers(5, 2)\<close> returns \<open>(6, 2)\<close>: the quotient is
  rounded up to 3, the candidates are \<open>(6,2), (5,5), (5,5)\<close> in the order of the search,
  their costs are 8, 10 and 10, and the first position of the least cost is 0.
\<close>

theorem solver_five_two:
  "find_commensurate_integers 5 2 True = Inr (6, 2)
   \<and> ceil_true_div 5 2 = Inr 3
   \<and> collect_solutions 5 2 True 3 = Inr [(6, 2), (5, 5), (5, 5)]
   \<and> costs_of [(6, 2), (5, 5), (5, 5)] = Inr [8, 10, 10]
   \<and> argmin [8, 10, 10] = Inr 0"
  by (intro conjI five_two ceil_5_2 five_two_candidates five_two_costs five_two_argmin)

text \<open>
  Claim C7, as the specification states it: every input with an axis count below 1 makes
  the solver raise a typed error. The code checks nothing: for \<open>dense = coarse = 0\<close> it
  returns \<open>(0, 0)\<close>, and for \<open>dense = 5\<close>, \<open>coarse = -2\<close> it returns \<open>(4, -2)\<close>.
\<close>

theorem solver_no_validation_counterexample:
  "find_commensurate_integers 0 0 True = Inr (0, 0)
   \<and> find_commensurate_integers 5 (- 2) True = Inr (4, - 2)"
  by (simp add: fci_identical five_minus_two)

text \<open>
  Claim C7, amended: the solver does not validate its inputs. Whenever
  \<open>dense \<le> coarse\<close> and \<^verbatim>\<open>include_identical=True\<close> it returns \<open>(coarse, coarse)\<close>, also for
  counts below 1. With \<open>coarse = 0\<close> the division \<^verbatim>\<open>dense / coarse\<close> raises a
  \<^verbatim>\<open>ZeroDivisionError\<close>: for \<open>dense > 0\<close> when \<^verbatim>\<open>include_identical=True\<close>, for every
  \<open>dense\<close> when it is \<^verbatim>\<open>False\<close>. On no input does the solver raise anything but the
  errors of its arithmetic, \<^verbatim>\<open>ZeroDivisionError\<close> and \<^verbatim>\<open>OverflowError\<close>.
\<close>

theorem solver_does_not_validate:
  "(dense \<le> coarse \<longrightarrow> find_commensurate_integers dense coarse True = Inr (coarse, coarse))
   \<and> (0 < dense \<longrightarrow> find_commensurate_integers dense 0 True = Inl ZeroDivisionError)
   \<and> find_commensurate_integers dense 0 False = Inl ZeroDivisionError
   \<and> (\<forall>e. find_commensurate_integers dense coarse include_identical = Inl e
          \<longrightarrow> e = ZeroDivisionError \<or> e = OverflowError)"
proof (intro conjI allI impI)
  assume "dense \<le> coarse"
  then show "find_commensurate_integers dense coarse True = Inr (coarse, coarse)"
    by (rule fci_identical)
next
  assume "0 < dense"
  then show "find_commensurate_integers dense 0 True = Inl ZeroDivisionError"
    by (simp add: fci_cases search_larger_zero)
next
  show "find_commensurate_integers dense 0 False = Inl ZeroDivisionError"
    by (simp add: fci_cases search_larger_zero)
next
  fix e
  assume "find_commensurate_integers dense coarse include_identical = Inl e"
  then show "e = ZeroDivisionError \<or> e = OverflowError" by (rule fci_error_kind)
qed

theorem solver_does_not_validate_witness:
  "(0::int) \<le> 0 \<and> find_commensurate_integers 0 0 True = Inr (0, 0)
   \<and> (0::int) < 5 \<and> find_commensurate_integers 5 0 True = Inl ZeroDivisionError
   \<and> find_commensurate_integers 5 0 False = Inl ZeroDivisionError"
  using solver_does_not_validate [of 0 0 True] solver_does_not_validate [of 5 0 True]
  by simp

text \<open>
  Claim C8. \<^verbatim>\<open>find_commensurate_meshes\<close> calls the solver on each of the three axes
  with \<^verbatim>\<open>include_identical=True\<close> and puts the three dense and the three coarse results
  together, whenever the three calls return; for the meshes \<open>(2,2,2)\<close> and \<open>(4,4,4)\<close> it
  returns \<open>(4,4,4)\<close> twice.
\<close>

theorem orchestrator_axiswise:
  assumes "find_commensurate_integers d0 c0 True = Inr s0"
    and "find_commensurate_integers d1 c1 True = Inr s1"
    and "find_commensurate_integers d2 c2 True = Inr s2"
  shows "find_commensurate_meshes [d0, d1, d2] [c0, c1, c2] =
           Inr ([fst s0, fst s1, fst s2], [snd s0, snd s1, snd s2])
    \<and> find_commensurate_meshes [2, 2, 2] [4, 4, 4] = Inr ([4, 4, 4], [4, 4, 4])"
proof
  show "find_commensurate_meshes [d0, d1, d2] [c0, c1, c2] =
      Inr ([fst s0, fst s1, fst s2], [snd s0, snd s1, snd s2])"
    using assms by (rule meshes_of_solutions)
next
  have "find_commensurate_integers 2 4 True = Inr (4, 4)"
    by (simp add: fci_identical)
  from meshes_of_solutions [OF this this this]
  show "find_commensurate_meshes [2, 2, 2] [4, 4, 4] = Inr ([4, 4, 4], [4, 4, 4])"
    by simp
qed

theorem orchestrator_axiswise_witness:
  "find_commensurate_integers 2 4 True = Inr (4, 4)
   \<and> find_commensurate_meshes [2, 2, 2] [4, 4, 4] = Inr ([4, 4, 4], [4, 4, 4])"
proof -
  have h: "find_commensurate_integers 2 4 True = Inr (4, 4)" by (simp add: fci_identical)
  from orchestrator_axiswise [OF h h h]
  have "find_commensurate_meshes [2, 2, 2] [4, 4, 4] = Inr ([4, 4, 4], [4, 4, 4])" by simp
  with h show ?thesis by simp
qed

text \<open>
  Claim C9. For \<open>dense \<ge> 1\<close>, \<open>coarse \<ge> 1\<close> and \<^verbatim>\<open>include_identical=False\<close> two nested
  calls are enough for the solver to end. In the branch \<open>dense \<le> coarse\<close> the recursive
  call has the first argument \<open>coarse + 1\<close>, which is larger than \<open>dense\<close>, and that call
  ends without a further call. For counts up to \<open>2\<^sup>6\<^sup>4\<close> the solver ends by returning a
  pair.
\<close>

theorem solver_recursion_terminates:
  assumes "1 \<le> dense" and "1 \<le> coarse"
  shows "find_commensurate_integers_bounded 2 dense coarse False =
        Some (find_commensurate_integers dense coarse False)
    \<and> (dense \<le> coarse \<longrightarrow>
          dense < coarse + 1
          \<and> find_commensurate_integers dense coarse False =
              find_commensurate_integers (coarse + 1) coarse False
          \<and> find_commensurate_integers_bounded 1 (coarse + 1) coarse False =
              Some (find_commensurate_integers (coarse + 1) coarse False))
    \<and> (dense \<le> 2 ^ 64 \<and> coarse \<le> 2 ^ 64 \<longrightarrow>
          (\<exists>s. find_commensurate_integers dense coarse False = Inr s))"
proof (intro conjI impI)
  show "find_commensurate_integers_bounded 2 dense coarse False =
      Some (find_commensurate_integers dense coarse False)"
    by (cases "dense \<le> coarse")
      (simp_all add: numeral_2_eq_2 fci_not_identical fci_larger)
next
  assume "dense \<le> coarse"
  then show "dense < coarse + 1" by simp
next
  assume "dense \<le> coarse"
  then show "find_commensurate_integers dense coarse False =
      find_commensurate_integers (coarse + 1) coarse False"
    by (rule fci_recurse)
next
  show "find_commensurate_integers_bounded 1 (coarse + 1) coarse False =
      Some (find_commensurate_integers (coarse + 1) coarse False)"
    by (simp add: fci_larger)
next
  assume "dense \<le> 2 ^ 64 \<and> coarse \<le> 2 ^ 64"
  then show "\<exists>s. find_commensurate_integers dense coarse False = Inr s"
    using assms by (intro fci_total) simp_all
qed

theorem solver_recursion_terminates_witness:
  "(1::int) \<le> 3 \<and> (1::int) \<le> 5 \<and> (3::int) \<le> 5 \<and> ((3::int) \<le> 2 ^ 64 \<and> (5::int) \<le> 2 ^ 64)
   \<and> find_commensurate_integers_bounded 2 3 5 False =
       Some (find_commensurate_integers 3 5 False)
   \<and> ((3::int) < 5 + 1
      \<and> find_commensurate_integers 3 5 False = find_commensurate_integers (5 + 1) 5 False
      \<and> find_commensurate_integers_bounded 1 (5 + 1) 5 False =
          Some (find_commensurate_integers (5 + 1) 5 False))
   \<and> (\<exists>s. find_commensurate_integers 3 5 False = Inr s)"
proof -
  have h1: "(1::int) \<le> 3" and h2: "(1::int) \<le> 5" and h3: "(3::int) \<le> 5"
    and h4: "(3::int) \<le> 2 ^ 64 \<and> (5::int) \<le> 2 ^ 64" by simp_all
  note t = solver_recursion_terminates [OF h1 h2]
  from t have a: "find_commensurate_integers_bounded 2 3 5 False =
      Some (find_commensurate_integers 3 5 False)" by (rule conjunct1)
  from t have bc: "((3::int) \<le> 5 \<longrightarrow>
          (3::int) < 5 + 1
          \<and> find_commensurate_integers 3 5 False =
              find_commensurate_integers (5 + 1) 5 False
          \<and> find_commensurate_integers_bounded 1 (5 + 1) 5 False =
              Some (find_commensurate_integers (5 + 1) 5 False))
    \<and> ((3::int) \<le> 2 ^ 64 \<and> (5::int) \<le> 2 ^ 64 \<longrightarrow>
          (\<exists>s. find_commensurate_integers 3 5 False = Inr s))" by (rule conjunct2)
  from bc have "(3::int) \<le> 5 \<longrightarrow>
          (3::int) < 5 + 1
          \<and> find_commensurate_integers 3 5 False =
              find_commensurate_integers (5 + 1) 5 False
          \<and> find_commensurate_integers_bounded 1 (5 + 1) 5 False =
              Some (find_commensurate_integers (5 + 1) 5 False)" by (rule conjunct1)
  from this h3 have b: "(3::int) < 5 + 1
          \<and> find_commensurate_integers 3 5 False =
              find_commensurate_integers (5 + 1) 5 False
          \<and> find_commensurate_integers_bounded 1 (5 + 1) 5 False =
              Some (find_commensurate_integers (5 + 1) 5 False)" by (rule mp)
  from bc have "(3::int) \<le> 2 ^ 64 \<and> (5::int) \<le> 2 ^ 64 \<longrightarrow>
          (\<exists>s. find_commensurate_integers 3 5 False = Inr s)" by (rule conjunct2)
  from this h4 have c: "\<exists>s. find_commensurate_integers 3 5 False = Inr s" by (rule mp)
  from h1 h2 h3 h4 a b c show ?thesis by iprover
qed

text \<open>
  Claim C10 says that for \<open>dense > coarse \<ge> 1\<close> and \<^verbatim>\<open>include_identical=True\<close> the dense
  number returned is at most \<open>coarse * ceil(dense / coarse)\<close>, hence below
  \<open>dense + coarse\<close>. For \<open>dense = 2\<^sup>5\<^sup>3 + 3\<close> and \<open>coarse = 1\<close> the double nearest to the
  quotient is \<open>2\<^sup>5\<^sup>3 + 4\<close>; the first candidate \<open>(2\<^sup>5\<^sup>3 + 4, 1)\<close> has the cost
  \<open>2\<^sup>5\<^sup>3 + 4\<close> as a double, no candidate of the search has a smaller one, and the solver
  returns it: a dense number equal to \<open>dense + coarse\<close>, where the input was commensurate
  already and the docstring promises the smallest increment. For counts up to \<open>2\<^sup>5\<^sup>2\<close>
  the claim holds (lemma \<open>fci_growth_bounded\<close>).
\<close>

theorem solver_overshoots_dense:
  "find_commensurate_integers 9007199254740995 1 True = Inr (9007199254740996, 1)
   \<and> 1 * \<lceil>rat_of_int 9007199254740995 / rat_of_int 1\<rceil> = 9007199254740995
   \<and> (9007199254740995 :: int) + 1 = 9007199254740996"
  by (simp add: overshooting_input)

end
